theory Spec2Isabelle
  imports Main
begin

section \<open>The node manager of the simulation kernel\<close>

text \<open>
  A shallow embedding of \<^verbatim>\<open>nestkernel/node_manager.cpp\<close>. The manager assigns global
  identifiers (GIDs) to new nodes, places them on virtual processes, keeps a per-thread
  list of the local nodes and drives the preparation pass over them.

  Names follow the source; a trailing underscore of a C++ member or method
  (\<^verbatim>\<open>next_local_gid_\<close>, \<^verbatim>\<open>local_nodes_\<close>) is dropped, because Isabelle
  does not accept it in the name of a constant.
\<close>

subsection \<open>Machine integers\<close>

text \<open>
  \<^verbatim>\<open>index\<close> is \<^verbatim>\<open>size_t\<close>, an unsigned 64-bit integer: a natural number with the
  wrap-around written out in \<open>index_add\<close> and \<open>index_sub\<close>. \<^verbatim>\<open>thread\<close> is a C
  \<^verbatim>\<open>int\<close>; it is signed, and \<^verbatim>\<open>get_node\<close> tests it against zero. The count given
  to \<^verbatim>\<open>add_node\<close> is a \<^verbatim>\<open>long\<close>, converted to \<^verbatim>\<open>index\<close> when it is added to a GID.
  A \<^verbatim>\<open>Node*\<close> is an address of the node store.
\<close>

type_synonym index = nat
type_synonym thread = int
type_synonym addr = nat

definition index_add :: "index \<Rightarrow> index \<Rightarrow> index" where
  "index_add a b = (a + b) mod 2 ^ 64"

definition index_sub :: "index \<Rightarrow> index \<Rightarrow> index" where
  "index_sub a b = (a + 2 ^ 64 - b mod 2 ^ 64) mod 2 ^ 64"

definition index_of_long :: "int \<Rightarrow> index" where
  "index_of_long n = nat (n mod 2 ^ 64)"

definition index_of_thread :: "thread \<Rightarrow> index" where
  "index_of_thread t = nat (t mod 2 ^ 64)"

subsection \<open>Failures\<close>

text \<open>
  The exceptions the source throws, as values. \<open>NodeException\<close> is an exception that a
  method of a node class throws and the manager lets pass, with its message;
  \<open>UnaccessedDictionaryEntry\<close> is thrown by the check of a dictionary for entries nobody
  has read, \<open>UndefinedName\<close> by the lookup of a name that a dictionary does not have. The
  last four are not C++ exceptions: they stand for the points where the source has no
  defined behaviour or aborts (a call through a null pointer, an unchecked
  \<^verbatim>\<open>std::vector\<close> access out of range, an integer division by zero, a failed
  \<^verbatim>\<open>assert\<close>).
\<close>

datatype failure =
    UnknownModelID index
  | BadProperty
  | KernelException string
  | UnknownNode
  | NoThreadSiblingsAvailable index
  | WrappedThreadException string
  | NodeException string
  | UnaccessedDictionaryEntry
  | UndefinedName string
  | NullPointerDereference
  | VectorIndexOutOfRange
  | DivisionByZero
  | AssertionFailed

subsection \<open>Nodes and models\<close>

text \<open>
  The attributes of a node that the manager reads or writes. A plain node has no thread
  siblings; a \<^verbatim>\<open>SiblingContainer\<close> holds the addresses of its per-thread replicas, in
  thread order. The source tells the two apart by \<^verbatim>\<open>num_thread_siblings()\<close>.
\<close>

record node =
  gid :: index
  model_id :: int
  thread :: thread
  vp :: thread
  node_has_proxies :: bool
  local_receiver :: bool
  thread_lid :: index
  buffers_initialized :: bool
  is_frozen :: bool
  node_uses_wfr :: bool
  thread_siblings :: "addr list"

definition num_thread_siblings :: "node \<Rightarrow> nat" where
  "num_thread_siblings n = length (thread_siblings n)"

text \<open>
  \<^verbatim>\<open>get_thread_sibling(i)\<close> indexes the container's vector without a check; \<open>None\<close> is
  the access out of range.
\<close>

definition get_thread_sibling :: "node \<Rightarrow> nat \<Rightarrow> addr option" where
  "get_thread_sibling n i =
     (if i < length (thread_siblings n) then Some (thread_siblings n ! i) else None)"

text \<open>
  Modelled from the spec: the class \<^verbatim>\<open>Model\<close> (model.h) is not part of the sources at
  hand. A model reports the capability flags \<open>has_proxies\<close>, global receiver, one instance
  per process and precise spikes, and \<^verbatim>\<open>allocate(thread)\<close> hands out a new node, a copy of
  the model's prototype.
\<close>

record model =
  has_proxies :: bool
  potential_global_receiver :: bool
  one_node_per_process :: bool
  is_off_grid :: bool
  prototype :: node

subsection \<open>The kernel's other managers\<close>

text \<open>
  Modelled from the spec: the dictionary classes (dictdatum.h) are not part of the sources
  at hand. A dictionary is a property record, a list of names with their values.
\<close>

type_synonym dictionary = "(string \<times> string) list"

text \<open>
  What the node manager asks of \<^verbatim>\<open>kernel()\<close>: the model manager, the MPI manager and the
  VP manager are not part of the sources at hand and are parameters here. Process counts
  and the rank are C \<^verbatim>\<open>int\<close>s that are never negative. The hooks are the virtual
  methods of a node that the manager calls; \<open>init_buffers\<close>, \<open>calibrate\<close> and
  \<open>set_status_base\<close> may throw, and return the node as they leave it together with the
  message of the exception, if any. \<open>all_entries_accessed d n\<close> tells whether the check
  \<^verbatim>\<open>ALL_ENTRIES_ACCESSED\<close> passes after node \<open>n\<close> has read dictionary \<open>d\<close>. \<open>any_true\<close> is the
  collective disjunction of the MPI manager, \<open>get_model_id\<close> the lookup of a model by its
  name, an \<^verbatim>\<open>int\<close>, and \<open>get_proxy_node\<close> the proxy that the model manager keeps for a
  thread and a GID.
\<close>

record kernel =
  get_num_node_models :: nat
  get_model :: "index \<Rightarrow> model"
  get_num_threads :: nat
  get_rank :: nat
  get_num_sim_processes :: nat
  get_num_rec_processes :: nat
  suggest_vp :: "index \<Rightarrow> thread"
  suggest_rec_vp :: "index \<Rightarrow> thread"
  vp_to_thread :: "thread \<Rightarrow> thread"
  thread_to_vp :: "thread \<Rightarrow> thread"
  is_local_vp :: "thread \<Rightarrow> bool"
  max_size :: index
  init_state :: "node \<Rightarrow> node"
  init_buffers :: "node \<Rightarrow> node \<times> string option"
  calibrate :: "node \<Rightarrow> node \<times> string option"
  post_run_cleanup_hook :: "node \<Rightarrow> node"
  finalize_hook :: "node \<Rightarrow> node"
  is_proxy :: "node \<Rightarrow> bool"
  set_status_base :: "dictionary \<Rightarrow> node \<Rightarrow> node \<times> string option"
  all_entries_accessed :: "dictionary \<Rightarrow> node \<Rightarrow> bool"
  get_status_base :: "node \<Rightarrow> node"
  any_true :: "bool \<Rightarrow> bool"
  get_model_id :: "string \<Rightarrow> int"
  get_proxy_node :: "thread \<Rightarrow> index \<Rightarrow> node"

subsection \<open>The local node registry\<close>

text \<open>
  Modelled from the spec: the class \<^verbatim>\<open>SparseNodeArray\<close> behind \<^verbatim>\<open>local_nodes_\<close> is not
  part of the sources at hand. It maps a GID to the locally owned node, in the order of
  registration, and tracks the largest GID allocated anywhere; a remote node only advances
  that maximum; a lookup by GID gives null (\<open>None\<close>) for a GID that is absent or remote;
  the size is the number of local entries, a container counting as one; \<^verbatim>\<open>clear\<close> empties
  it.
\<close>

record sparse_node_array =
  entries :: "(index \<times> addr) list"
  max_gid_seen :: index

definition get_max_gid :: "sparse_node_array \<Rightarrow> index" where
  "get_max_gid a = max_gid_seen a"

definition san_add_local_node :: "index \<Rightarrow> addr \<Rightarrow> sparse_node_array \<Rightarrow> sparse_node_array" where
  "san_add_local_node g p a =
     a\<lparr>entries := entries a @ [(g, p)], max_gid_seen := max (max_gid_seen a) g\<rparr>"

definition san_add_remote_node :: "index \<Rightarrow> sparse_node_array \<Rightarrow> sparse_node_array" where
  "san_add_remote_node g a = a\<lparr>max_gid_seen := max (max_gid_seen a) g\<rparr>"

definition get_node_by_gid :: "sparse_node_array \<Rightarrow> index \<Rightarrow> addr option" where
  "get_node_by_gid a g = map_of (entries a) g"

definition san_clear :: "sparse_node_array \<Rightarrow> sparse_node_array" where
  "san_clear a = \<lparr>entries = [], max_gid_seen = 0\<rparr>"

definition san_size :: "sparse_node_array \<Rightarrow> nat" where
  "san_size a = length (entries a)"

definition get_node_by_index :: "sparse_node_array \<Rightarrow> nat \<Rightarrow> addr" where
  "get_node_by_index a i = snd (entries a ! i)"

subsection \<open>The state of the manager\<close>

text \<open>
  The members of \<^verbatim>\<open>NodeManager\<close>, the node store they point into (the pools are owned
  by the models; \<open>next_addr\<close> is the first address not handed out yet), and the two pieces
  of other managers that \<^verbatim>\<open>add_node\<close> writes: the model ranges and the off-grid flag.
\<close>

record node_manager =
  local_nodes :: sparse_node_array
  pool :: "addr \<Rightarrow> node"
  next_addr :: addr
  n_gsd :: index
  nodes_vec :: "addr list list"
  wfr_nodes_vec :: "addr list list"
  wfr_is_used :: bool
  nodes_vec_network_size :: index
  num_active_nodes :: index
  model_ranges :: "(index \<times> index \<times> index) list"
  off_grid_communication :: bool

text \<open>
  Modelled from the spec: \<^verbatim>\<open>NodeManager::size()\<close> is declared in node_manager.h, which
  is not part of the sources at hand. It is the network size: the number of GIDs allocated
  so far, counting the root GID 0 (\<^verbatim>\<open>print\<close> reads it as a GID bound, and \<^verbatim>\<open>get_status\<close>
  reports it as \<^verbatim>\<open>network_size\<close>).
\<close>

definition size_nm :: "node_manager \<Rightarrow> index" where
  "size_nm s = index_add (get_max_gid (local_nodes s)) 1"

definition get_n_gsd :: "node_manager \<Rightarrow> index" where
  "get_n_gsd s = n_gsd s"

definition increment_n_gsd :: "node_manager \<Rightarrow> node_manager" where
  "increment_n_gsd s = s\<lparr>n_gsd := index_add (n_gsd s) 1\<rparr>"

definition allocate :: "model \<Rightarrow> thread \<Rightarrow> node_manager \<Rightarrow> addr \<times> node_manager" where
  "allocate m t s =
     (next_addr s,
      s\<lparr>pool := (pool s)(next_addr s := (prototype m)\<lparr>thread_siblings := []\<rparr>),
        next_addr := Suc (next_addr s)\<rparr>)"

text \<open>A call of setters on the node at an address.\<close>

definition update_node :: "addr \<Rightarrow> (node \<Rightarrow> node) \<Rightarrow> node_manager \<Rightarrow> node_manager" where
  "update_node p f s = s\<lparr>pool := (pool s)(p := f (pool s p))\<rparr>"

definition add_local_node :: "addr \<Rightarrow> node_manager \<Rightarrow> node_manager" where
  "add_local_node p s = s\<lparr>local_nodes := san_add_local_node (gid (pool s p)) p (local_nodes s)\<rparr>"

definition add_remote_node :: "index \<Rightarrow> node_manager \<Rightarrow> node_manager" where
  "add_remote_node g s = s\<lparr>local_nodes := san_add_remote_node g (local_nodes s)\<rparr>"

subsection \<open>\<^verbatim>\<open>next_local_gid_\<close>\<close>

definition next_local_gid :: "kernel \<Rightarrow> index \<Rightarrow> index" where
  "next_local_gid k curr_gid =
     (let rank = get_rank k; sim_procs = get_num_sim_processes k in
      if rank \<ge> sim_procs then index_add curr_gid sim_procs
      else
        let proc_of_curr_gid = curr_gid mod sim_procs in
        if proc_of_curr_gid = rank then index_add curr_gid sim_procs
        else index_add curr_gid
               (index_sub (index_add sim_procs rank) proc_of_curr_gid mod sim_procs))"

subsection \<open>\<^verbatim>\<open>add_node\<close>\<close>

text \<open>
  The calls that only reserve memory (\<^verbatim>\<open>reserve\<close>, \<^verbatim>\<open>reserve_additional\<close>), the
  deprecation warning and the log lines change nothing that is modelled and are left out.
\<close>

text \<open>Global receivers, one GID of the loop of the first branch.\<close>

definition add_global_receiver :: "kernel \<Rightarrow> index \<Rightarrow> model \<Rightarrow> node_manager \<Rightarrow> index \<Rightarrow> node_manager" where
  "add_global_receiver k mid m s g =
     (let vp' = suggest_rec_vp k (get_n_gsd s);
          t = vp_to_thread k vp';
          s' = (if is_local_vp k vp' then
                  (let (newnode, s1) = allocate m t s;
                       s2 = update_node newnode
                              (\<lambda>n. n\<lparr>gid := g, model_id := int mid, thread := t, vp := vp',
                                     node_has_proxies := True, local_receiver := False\<rparr>) s1
                   in add_local_node newnode s2)
                else add_remote_node g s)
      in increment_n_gsd s')"

text \<open>Nodes with proxies: the body of the \<^verbatim>\<open>while\<close> loop for a local GID.\<close>

definition add_proxied_node :: "kernel \<Rightarrow> index \<Rightarrow> model \<Rightarrow> index \<Rightarrow> node_manager \<Rightarrow> node_manager" where
  "add_proxied_node k mid m g s =
     (let vp' = suggest_vp k g;
          t = vp_to_thread k vp';
          (newnode, s1) = allocate m t s;
          s2 = update_node newnode
                 (\<lambda>n. n\<lparr>gid := g, model_id := int mid, thread := t, vp := vp'\<rparr>) s1
      in add_local_node newnode s2)"

text \<open>
  The \<^verbatim>\<open>while ( gid < max_gid )\<close> loop. With the wrap-around of \<open>next_local_gid\<close> it need
  not end, so not returning is the value \<open>None\<close>. The last argument records the values
  the loop variable takes while the loop runs; the source does not keep it.
\<close>

partial_function (option) local_gid_loop ::
  "kernel \<Rightarrow> index \<Rightarrow> model \<Rightarrow> index \<Rightarrow> index \<Rightarrow> node_manager \<Rightarrow> index list
     \<Rightarrow> (node_manager \<times> index list) option" where
  "local_gid_loop k mid m max_gid g s visited =
     (if g < max_gid then
        (if is_local_vp k (suggest_vp k g)
         then local_gid_loop k mid m max_gid (next_local_gid k g)
                (add_proxied_node k mid m g s) (visited @ [g])
         else local_gid_loop k mid m max_gid (index_add g 1) s (visited @ [g]))
      else Some (s, visited))"

declare local_gid_loop.simps [code]

definition add_proxied_nodes ::
  "kernel \<Rightarrow> index \<Rightarrow> model \<Rightarrow> index \<Rightarrow> index \<Rightarrow> node_manager
     \<Rightarrow> (node_manager \<times> index list) option" where
  "add_proxied_nodes k mid m min_gid max_gid s =
     (let g = (if is_local_vp k (suggest_vp k min_gid) then min_gid
               else next_local_gid k min_gid)
      in case local_gid_loop k mid m max_gid g s [] of
           None \<Rightarrow> None
         | Some (s', visited) \<Rightarrow>
             Some (if \<not> is_local_vp k (suggest_vp k (index_sub max_gid 1))
                   then add_remote_node (index_sub max_gid 1) s' else s',
                   visited))"

text \<open>Replicated nodes without proxies: one replica, then one container with its replicas.\<close>

definition add_replica ::
  "kernel \<Rightarrow> index \<Rightarrow> model \<Rightarrow> index \<Rightarrow> addr \<Rightarrow> node_manager \<Rightarrow> nat \<Rightarrow> node_manager" where
  "add_replica k mid m g container s t =
     (let (newnode, s1) = allocate m (int t) s;
          s2 = update_node newnode
                 (\<lambda>n. n\<lparr>gid := g, model_id := int mid, thread := int t,
                        vp := thread_to_vp k (int t)\<rparr>) s1
      in update_node container
           (\<lambda>c. c\<lparr>thread_siblings := thread_siblings c @ [newnode]\<rparr>) s2)"

definition add_sibling_container :: "kernel \<Rightarrow> index \<Rightarrow> model \<Rightarrow> node_manager \<Rightarrow> index \<Rightarrow> node_manager" where
  "add_sibling_container k mid m s g =
     (let thread_id = vp_to_thread k (suggest_vp k g);
          (container, s1) = allocate (get_model k 0) thread_id s;
          s2 = update_node container (\<lambda>c. c\<lparr>model_id := - 1, gid := g\<rparr>) s1;
          s3 = add_local_node container s2
      in foldl (add_replica k mid m g container) s3 [0..<get_num_threads k])"

text \<open>One node per process.\<close>

definition add_single_node :: "kernel \<Rightarrow> index \<Rightarrow> model \<Rightarrow> node_manager \<Rightarrow> index \<Rightarrow> node_manager" where
  "add_single_node k mid m s g =
     (let (newnode, s1) = allocate m 0 s;
          s2 = update_node newnode
                 (\<lambda>n. n\<lparr>gid := g, model_id := int mid, thread := 0,
                        vp := thread_to_vp k 0\<rparr>) s1
      in add_local_node newnode s2)"

text \<open>The end of \<^verbatim>\<open>add_node\<close>: a model that emits precise spikes switches off-grid communication on.\<close>

definition set_off_grid_spiking :: "model \<Rightarrow> node_manager \<Rightarrow> node_manager" where
  "set_off_grid_spiking m s = (if is_off_grid m then s\<lparr>off_grid_communication := True\<rparr> else s)"

datatype gid_collection = GIDCollectionPrimitive index index index

text \<open>
  The result is \<open>None\<close> when the call does not return, otherwise the exception or the
  handle, with the state the call leaves behind.
\<close>

definition add_node ::
  "kernel \<Rightarrow> index \<Rightarrow> int \<Rightarrow> node_manager \<Rightarrow> ((failure + gid_collection) \<times> node_manager) option" where
  "add_node k mid n s =
     (if mid \<ge> get_num_node_models k then Some (Inl (UnknownModelID mid), s)
      else if n < 1 then Some (Inl BadProperty, s)
      else if \<not> get_num_threads k > 0 then Some (Inl AssertionFailed, s)
      else
        let min_gid = index_add (get_max_gid (local_nodes s)) 1;
            max_gid = index_add min_gid (index_of_long n);
            m = get_model k mid
        in
        if max_gid > max_size k \<or> max_gid < min_gid
        then Some (Inl (KernelException ''OutOfMemory''), s)
        else
          let s1 = s\<lparr>model_ranges := model_ranges s @ [(mid, min_gid, index_sub max_gid 1)]\<rparr>;
              finish = (\<lambda>s2. Some (Inr (GIDCollectionPrimitive min_gid (index_sub max_gid 1) mid),
                                   set_off_grid_spiking m s2))
          in
          if potential_global_receiver m \<and> get_num_rec_processes k > 0
          then finish (foldl (add_global_receiver k mid m) s1 [min_gid..<max_gid])
          else if has_proxies m then
            (if get_num_sim_processes k = 0 then Some (Inl DivisionByZero, s1)
             else case add_proxied_nodes k mid m min_gid max_gid s1 of
                    None \<Rightarrow> None
                  | Some (s2, visited) \<Rightarrow> finish s2)
          else if \<not> one_node_per_process m
          then finish (foldl (add_sibling_container k mid m) s1 [min_gid..<max_gid])
          else finish (foldl (add_single_node k mid m) s1 [min_gid..<max_gid]))"

text \<open>
  The branches of \<^verbatim>\<open>add_node\<close> as they read once the three checks have passed and the
  sums have not wrapped around; \<open>add_node_unfold\<close> below proves that this is what
  \<^verbatim>\<open>add_node\<close> does then.
\<close>

definition add_node_branches ::
  "kernel \<Rightarrow> index \<Rightarrow> int \<Rightarrow> node_manager \<Rightarrow> ((failure + gid_collection) \<times> node_manager) option" where
  "add_node_branches k mid n s =
     (let m = get_model k mid;
          min_gid = get_max_gid (local_nodes s) + 1;
          max_gid = get_max_gid (local_nodes s) + 1 + nat n;
          s1 = s\<lparr>model_ranges := model_ranges s @ [(mid, min_gid, max_gid - 1)]\<rparr>;
          h = GIDCollectionPrimitive min_gid (max_gid - 1) mid
      in if potential_global_receiver m \<and> get_num_rec_processes k > 0
         then Some (Inr h, set_off_grid_spiking m
                             (foldl (add_global_receiver k mid m) s1 [min_gid..<max_gid]))
         else if has_proxies m then
           (case add_proxied_nodes k mid m min_gid max_gid s1 of
              None \<Rightarrow> None
            | Some (s2, visited) \<Rightarrow> Some (Inr h, set_off_grid_spiking m s2))
         else if \<not> one_node_per_process m
         then Some (Inr h, set_off_grid_spiking m
                             (foldl (add_sibling_container k mid m) s1 [min_gid..<max_gid]))
         else Some (Inr h, set_off_grid_spiking m
                             (foldl (add_single_node k mid m) s1 [min_gid..<max_gid])))"

subsection \<open>Lookup\<close>

text \<open>
  \<^verbatim>\<open>get_node\<close> returns a pointer: to a node of the store, or to the proxy that the model
  manager hands out for the thread and the GID.
\<close>

datatype node_ptr = PoolNode addr | ProxyNode thread index

definition get_node :: "node_manager \<Rightarrow> index \<Rightarrow> thread \<Rightarrow> failure + node_ptr" where
  "get_node s n thr =
     (case get_node_by_gid (local_nodes s) n of
        None \<Rightarrow> Inr (ProxyNode thr n)
      | Some p \<Rightarrow>
          if num_thread_siblings (pool s p) = 0 then Inr (PoolNode p)
          else if thr < 0 \<or> thr \<ge> int (num_thread_siblings (pool s p)) then Inl UnknownNode
          else (case get_thread_sibling (pool s p) (nat thr) of
                  None \<Rightarrow> Inl VectorIndexOutOfRange
                | Some q \<Rightarrow> Inr (PoolNode q)))"

text \<open>
  \<^verbatim>\<open>get_thread_siblings\<close> calls \<^verbatim>\<open>num_thread_siblings()\<close> on the result of the lookup
  without testing it for null.
\<close>

definition get_thread_siblings :: "node_manager \<Rightarrow> index \<Rightarrow> failure + addr" where
  "get_thread_siblings s n =
     (case get_node_by_gid (local_nodes s) n of
        None \<Rightarrow> Inl NullPointerDereference
      | Some p \<Rightarrow>
          if num_thread_siblings (pool s p) = 0 then Inl (NoThreadSiblingsAvailable n)
          else Inr p)"

subsection \<open>The thread-local view\<close>

text \<open>A loop whose body can fail stops at the first failure.\<close>

fun foldl_fail :: "('s \<Rightarrow> 'a \<Rightarrow> failure + 's) \<Rightarrow> 's \<Rightarrow> 'a list \<Rightarrow> failure + 's" where
  "foldl_fail f s [] = Inr s"
| "foldl_fail f s (x # xs) = (case f s x of Inl e \<Rightarrow> Inl e | Inr s' \<Rightarrow> foldl_fail f s' xs)"

text \<open>
  One entry of the registry in the second loop of \<^verbatim>\<open>ensure_valid_thread_local_ids\<close> for
  thread \<open>t\<close>: the replica of a container for this thread, or a plain node on the thread it
  belongs to, gets its position in the list as thread-local id and is appended. The first
  loop only counts, to reserve memory, and is left out.
\<close>

definition register_thread_local :: "nat \<Rightarrow> node_manager \<Rightarrow> nat \<Rightarrow> failure + node_manager" where
  "register_thread_local t s idx =
     (let node = get_node_by_index (local_nodes s) idx in
      if num_thread_siblings (pool s node) > 0 then
        (case get_thread_sibling (pool s node) t of
           None \<Rightarrow> Inl VectorIndexOutOfRange
         | Some sib \<Rightarrow>
             let s1 = update_node sib (\<lambda>n. n\<lparr>thread_lid := length (nodes_vec s ! t)\<rparr>) s
             in Inr (s1\<lparr>nodes_vec := (nodes_vec s1)[t := nodes_vec s1 ! t @ [sib]]\<rparr>))
      else if index_of_thread (thread (pool s node)) = t then
        (let s1 = update_node node (\<lambda>n. n\<lparr>thread_lid := length (nodes_vec s ! t)\<rparr>) s;
             s2 = s1\<lparr>nodes_vec := (nodes_vec s1)[t := nodes_vec s1 ! t @ [node]]\<rparr>
         in Inr (if node_uses_wfr (pool s2 node)
                 then s2\<lparr>wfr_nodes_vec := (wfr_nodes_vec s2)[t := wfr_nodes_vec s2 ! t @ [node]]\<rparr>
                 else s2))
      else Inr s)"

definition rebuild_thread :: "node_manager \<Rightarrow> nat \<Rightarrow> failure + node_manager" where
  "rebuild_thread s t =
     foldl_fail (register_thread_local t) s [0..<san_size (local_nodes s)]"

text \<open>
  Without OpenMP the critical section is the plain block; the second test of the size
  is the first one again.
\<close>

definition ensure_valid_thread_local_ids :: "kernel \<Rightarrow> node_manager \<Rightarrow> failure + node_manager" where
  "ensure_valid_thread_local_ids k s =
     (if size_nm s = nodes_vec_network_size s then Inr s
      else if size_nm s \<noteq> nodes_vec_network_size s then
        (let s0 = s\<lparr>nodes_vec := replicate (get_num_threads k) [],
                     wfr_nodes_vec := replicate (get_num_threads k) []\<rparr>
         in case foldl_fail rebuild_thread s0 [0..<get_num_threads k] of
              Inl e \<Rightarrow> Inl e
            | Inr s1 \<Rightarrow>
                Inr (s1\<lparr>nodes_vec_network_size := size_nm s1,
                         wfr_is_used := list_ex (\<lambda>t. length (wfr_nodes_vec s1 ! t) > 0)
                                          [0..<get_num_threads k]\<rparr>))
      else Inr s)"

subsection \<open>The lifecycle passes\<close>

definition prepare_node :: "kernel \<Rightarrow> node \<Rightarrow> node \<times> string option" where
  "prepare_node k n =
     (case init_buffers k n of
        (n1, Some e) \<Rightarrow> (n1, Some e)
      | (n1, None) \<Rightarrow> calibrate k n1)"

text \<open>
  The loop over the list of one thread, inside the \<^verbatim>\<open>try\<close> block: an exception leaves
  the loop, and the rest of the list is not visited. The result is the store, the number
  of nodes that are not frozen, and the message of the exception caught, if any. The
  count of nodes that use waveform relaxation only feeds the log line and is left out.
\<close>

fun prepare_thread ::
  "kernel \<Rightarrow> addr list \<Rightarrow> (addr \<Rightarrow> node) \<Rightarrow> nat \<Rightarrow> (addr \<Rightarrow> node) \<times> nat \<times> string option" where
  "prepare_thread k [] pl cnt = (pl, cnt, None)"
| "prepare_thread k (p # ps) pl cnt =
     (case prepare_node k (pl p) of
        (n', Some e) \<Rightarrow> (pl(p := n'), cnt, Some e)
      | (n', None) \<Rightarrow>
          prepare_thread k ps (pl(p := n')) (if \<not> is_frozen n' then Suc cnt else cnt))"

text \<open>
  The loop over the threads, as it is compiled without OpenMP; with OpenMP the same
  bodies run in parallel, on lists that share no node. Each thread stores what it caught
  in its slot of \<^verbatim>\<open>exceptions_raised\<close>.
\<close>

fun prepare_threads ::
  "kernel \<Rightarrow> addr list list \<Rightarrow> nat list \<Rightarrow> (addr \<Rightarrow> node) \<times> nat \<times> string option list
     \<Rightarrow> failure + ((addr \<Rightarrow> node) \<times> nat \<times> string option list)" where
  "prepare_threads k nv [] acc = Inr acc"
| "prepare_threads k nv (t # ts) (pl, cnt, raised) =
     (if t < length nv then
        (case prepare_thread k (nv ! t) pl 0 of
           (pl', c, e) \<Rightarrow> prepare_threads k nv ts (pl', cnt + c, raised @ [e]))
      else Inl VectorIndexOutOfRange)"

text \<open>
  After the loop the first exception found in thread order is thrown again, wrapped;
  the number of active nodes is published only when there is none.
\<close>

definition prepare_nodes :: "kernel \<Rightarrow> node_manager \<Rightarrow> failure option \<times> node_manager" where
  "prepare_nodes k s =
     (case prepare_threads k (nodes_vec s) [0..<get_num_threads k] (pool s, 0, []) of
        Inl e \<Rightarrow> (Some e, s)
      | Inr (pl, cnt, raised) \<Rightarrow>
          (case List.find (\<lambda>e. e \<noteq> None) raised of
             Some (Some msg) \<Rightarrow> (Some (WrappedThreadException msg), s\<lparr>pool := pl\<rparr>)
           | _ \<Rightarrow> (None, s\<lparr>pool := pl, num_active_nodes := cnt\<rparr>)))"

text \<open>
  \<^verbatim>\<open>reset_nodes_state\<close> and \<^verbatim>\<open>reinit_nodes\<close> have the same body. The hooks of these
  passes are taken not to throw: the source has no handler for them.
\<close>

definition reset_node :: "kernel \<Rightarrow> node_manager \<Rightarrow> addr \<Rightarrow> node_manager" where
  "reset_node k s p = update_node p (\<lambda>n. (init_state k n)\<lparr>buffers_initialized := False\<rparr>) s"

definition reset_entry :: "kernel \<Rightarrow> node_manager \<Rightarrow> nat \<Rightarrow> node_manager" where
  "reset_entry k s idx =
     (let node = get_node_by_index (local_nodes s) idx in
      if num_thread_siblings (pool s node) = 0 then reset_node k s node
      else if model_id (pool s node) = - 1
      then foldl (reset_node k) s (thread_siblings (pool s node))
      else s)"

definition reset_nodes_state :: "kernel \<Rightarrow> node_manager \<Rightarrow> node_manager" where
  "reset_nodes_state k s = foldl (reset_entry k) s [0..<san_size (local_nodes s)]"

definition reinit_nodes :: "kernel \<Rightarrow> node_manager \<Rightarrow> node_manager" where
  "reinit_nodes k s = foldl (reset_entry k) s [0..<san_size (local_nodes s)]"

text \<open>
  \<^verbatim>\<open>post_run_cleanup\<close> and \<^verbatim>\<open>finalize_nodes\<close> walk the registry once per thread and
  call their hook on the replica of a container for the thread, or on a plain node of
  the thread.
\<close>

definition visit_thread_local ::
  "(node \<Rightarrow> node) \<Rightarrow> nat \<Rightarrow> node_manager \<Rightarrow> nat \<Rightarrow> failure + node_manager" where
  "visit_thread_local hook t s idx =
     (let node = get_node_by_index (local_nodes s) idx in
      if num_thread_siblings (pool s node) > 0 then
        (case get_thread_sibling (pool s node) t of
           None \<Rightarrow> Inl VectorIndexOutOfRange
         | Some sib \<Rightarrow> Inr (update_node sib hook s))
      else if index_of_thread (thread (pool s node)) = t then Inr (update_node node hook s)
      else Inr s)"

definition visit_all_threads :: "kernel \<Rightarrow> (node \<Rightarrow> node) \<Rightarrow> node_manager \<Rightarrow> failure + node_manager" where
  "visit_all_threads k hook s =
     foldl_fail (\<lambda>s t. foldl_fail (visit_thread_local hook t) s [0..<san_size (local_nodes s)])
       s [0..<get_num_threads k]"

definition post_run_cleanup :: "kernel \<Rightarrow> node_manager \<Rightarrow> failure + node_manager" where
  "post_run_cleanup k s = visit_all_threads k (post_run_cleanup_hook k) s"

definition finalize_nodes :: "kernel \<Rightarrow> node_manager \<Rightarrow> failure + node_manager" where
  "finalize_nodes k s = visit_all_threads k (finalize_hook k) s"

subsection \<open>Status, restore and teardown\<close>

text \<open>
  Modelled from the spec: the header node_manager.h is not part of the sources at hand.
  \<^verbatim>\<open>get_status\<close>, \<^verbatim>\<open>init_state\<close> and \<^verbatim>\<open>restore_nodes\<close> call \<^verbatim>\<open>get_node\<close> with the GID
  alone, and \<^verbatim>\<open>restore_nodes\<close> calls \<^verbatim>\<open>add_node\<close> with the model alone: the thread that
  is left out is taken as thread 0, the count as 1.
\<close>

definition default_thread :: thread where
  "default_thread = 0"

text \<open>
  \<^verbatim>\<open>set_status_single_node_\<close>, with \<^verbatim>\<open>clear_flags\<close> set as \<^verbatim>\<open>set_status\<close> calls it: the
  access flags belong to the dictionary. The node is left as \<^verbatim>\<open>set_status_base\<close> leaves
  it, also when that throws.
\<close>

definition set_status_single_node ::
  "kernel \<Rightarrow> node_manager \<Rightarrow> addr \<Rightarrow> dictionary \<Rightarrow> failure option \<times> node_manager" where
  "set_status_single_node k s target d =
     (if \<not> is_proxy k (pool s target) then
        (case set_status_base k d (pool s target) of
           (n', Some msg) \<Rightarrow>
             (Some (NodeException msg), s\<lparr>pool := (pool s)(target := n')\<rparr>)
         | (n', None) \<Rightarrow>
             (if all_entries_accessed k d n' then None else Some UnaccessedDictionaryEntry,
              s\<lparr>pool := (pool s)(target := n')\<rparr>))
      else (None, s))"

text \<open>
  The loop of \<^verbatim>\<open>set_status\<close> over the replicas of a container. It reads the number of
  siblings anew in every round, so it is a loop that need not end in a state where a
  container is its own sibling; not returning is the value \<open>None\<close>, as is the access out
  of range.
\<close>

partial_function (option) set_status_siblings ::
  "kernel \<Rightarrow> addr \<Rightarrow> dictionary \<Rightarrow> node_manager \<Rightarrow> nat
     \<Rightarrow> (failure option \<times> node_manager) option" where
  "set_status_siblings k target d s t =
     (if t < num_thread_siblings (pool s target) then
        (case get_thread_sibling (pool s target) t of
           None \<Rightarrow> None
         | Some sib \<Rightarrow>
             (case set_status_single_node k s sib d of
                (Some e, s') \<Rightarrow> Some (Some e, s')
              | (None, s') \<Rightarrow> set_status_siblings k target d s' (Suc t)))
      else Some (None, s))"

declare set_status_siblings.simps [code]

definition set_status ::
  "kernel \<Rightarrow> index \<Rightarrow> dictionary \<Rightarrow> node_manager \<Rightarrow> (failure option \<times> node_manager) option" where
  "set_status k g d s =
     (case get_node_by_gid (local_nodes s) g of
        None \<Rightarrow> Some (None, s)
      | Some target \<Rightarrow>
          if num_thread_siblings (pool s target) = 0
          then Some (set_status_single_node k s target d)
          else set_status_siblings k target d s 0)"

text \<open>
  \<^verbatim>\<open>get_status(idx)\<close> and \<^verbatim>\<open>init_state(GID)\<close> call a method of the node that \<^verbatim>\<open>get_node\<close>
  returns. A proxy is a node of the model manager, outside the store. \<^verbatim>\<open>get_node\<close> never
  returns null, so the test for null in \<^verbatim>\<open>init_state\<close> never fires.
\<close>

definition get_status :: "kernel \<Rightarrow> index \<Rightarrow> node_manager \<Rightarrow> failure + node_manager" where
  "get_status k idx s =
     (case get_node s idx default_thread of
        Inl e \<Rightarrow> Inl e
      | Inr (ProxyNode t g) \<Rightarrow> Inr s
      | Inr (PoolNode target) \<Rightarrow> Inr (update_node target (get_status_base k) s))"

definition init_state_node :: "kernel \<Rightarrow> index \<Rightarrow> node_manager \<Rightarrow> failure + node_manager" where
  "init_state_node k g s =
     (case get_node s g default_thread of
        Inl e \<Rightarrow> Inl e
      | Inr (ProxyNode t g') \<Rightarrow> Inr s
      | Inr (PoolNode n) \<Rightarrow> Inr (update_node n (init_state k) s))"

text \<open>
  \<^verbatim>\<open>restore_nodes\<close>: for each property record, one new node of the model that the record
  names, and \<^verbatim>\<open>set_status_base\<close> on the node that \<^verbatim>\<open>get_node\<close> returns for the new GID,
  which is a proxy when the GID belongs to another process. The model identifier is an
  \<^verbatim>\<open>int\<close> converted to \<^verbatim>\<open>index\<close>. The result is \<open>None\<close> when the call does not return or
  has no defined behaviour, otherwise the exception, if any, and the state.
\<close>

fun restore_nodes ::
  "kernel \<Rightarrow> dictionary list \<Rightarrow> node_manager \<Rightarrow> (failure option \<times> node_manager) option" where
  "restore_nodes k [] s = Some (None, s)"
| "restore_nodes k (node_props # rest) s =
     (case map_of node_props ''model'' of
        None \<Rightarrow> Some (Some (UndefinedName ''model''), s)
      | Some model_name \<Rightarrow>
          (case add_node k (index_of_long (get_model_id k model_name)) 1 s of
             None \<Rightarrow> None
           | Some (Inl e, s1) \<Rightarrow> Some (Some e, s1)
           | Some (Inr (GIDCollectionPrimitive first_gid last_gid model), s1) \<Rightarrow>
               (case get_node s1 first_gid default_thread of
                  Inl e \<Rightarrow> (if e = VectorIndexOutOfRange then None else Some (Some e, s1))
                | Inr (ProxyNode t g) \<Rightarrow>
                    (case set_status_base k node_props (get_proxy_node k t g) of
                       (n', Some msg) \<Rightarrow> Some (Some (NodeException msg), s1)
                     | (n', None) \<Rightarrow> restore_nodes k rest s1)
                | Inr (PoolNode p) \<Rightarrow>
                    (case set_status_base k node_props (pool s1 p) of
                       (n', Some msg) \<Rightarrow>
                         Some (Some (NodeException msg), s1\<lparr>pool := (pool s1)(p := n')\<rparr>)
                     | (n', None) \<Rightarrow>
                         restore_nodes k rest (s1\<lparr>pool := (pool s1)(p := n')\<rparr>)))))"

text \<open>
  \<^verbatim>\<open>destruct_nodes_\<close> calls the destructor of every node of the registry and of every
  replica behind a container, and clears the registry. The destructors end the lives of
  the nodes and leave their memory to the models, which own it: the store is not written,
  and the nodes are no longer nodes of the registry. \<^verbatim>\<open>finalize\<close> and the destructor of the
  manager are this call. \<^verbatim>\<open>initialize\<close> forces a rebuild of the view; its assertions on the
  container model are left out.
\<close>

definition destruct_nodes :: "node_manager \<Rightarrow> node_manager" where
  "destruct_nodes s = s\<lparr>local_nodes := san_clear (local_nodes s)\<rparr>"

definition finalize :: "node_manager \<Rightarrow> node_manager" where
  "finalize s = destruct_nodes s"

definition initialize :: "kernel \<Rightarrow> node_manager \<Rightarrow> failure + node_manager" where
  "initialize k s = ensure_valid_thread_local_ids k (s\<lparr>nodes_vec_network_size := 0\<rparr>)"

text \<open>
  \<^verbatim>\<open>check_wfr_use\<close> replaces the flag by its disjunction over all processes; the
  coefficient length it sets belongs to the event class.
\<close>

definition check_wfr_use :: "kernel \<Rightarrow> node_manager \<Rightarrow> node_manager" where
  "check_wfr_use k s = s\<lparr>wfr_is_used := any_true k (wfr_is_used s)\<rparr>"

subsection \<open>Runs of operations\<close>

text \<open>
  The operations of the manager, and a run of them. \<^verbatim>\<open>is_local_node\<close>, \<^verbatim>\<open>print\<close>,
  \<^verbatim>\<open>get_status(d)\<close> and \<^verbatim>\<open>set_status(d)\<close> of the manager itself write nothing, and
  \<^verbatim>\<open>get_node\<close> and \<^verbatim>\<open>get_thread_siblings\<close> only read. A run stops, with \<open>None\<close>, at a call
  that does not return or has no defined behaviour; an exception leaves the state as the
  call left it and the run goes on.
\<close>

datatype operation =
    AddNode index int
  | RestoreNodes "dictionary list"
  | SetStatus index dictionary
  | GetStatus index
  | InitState index
  | Initialize
  | Finalize
  | EnsureValidThreadLocalIds
  | PrepareNodes
  | ResetNodesState
  | ReinitNodes
  | PostRunCleanup
  | FinalizeNodes
  | CheckWfrUse
  | GetNode index thread
  | GetThreadSiblings index
  | IsLocalNode addr
  | Print
  | GetStatusOfManager
  | SetStatusOfManager dictionary

fun state_or_none :: "failure + node_manager \<Rightarrow> node_manager option" where
  "state_or_none (Inl e) = None"
| "state_or_none (Inr s) = Some s"

text \<open>The state after a call that is left by an exception without having written.\<close>

definition state_or_unchanged :: "node_manager \<Rightarrow> failure + node_manager \<Rightarrow> node_manager option" where
  "state_or_unchanged s r =
     (case r of
        Inl e \<Rightarrow> if e = VectorIndexOutOfRange \<or> e = NullPointerDereference then None else Some s
      | Inr s' \<Rightarrow> Some s')"

fun run_operation :: "kernel \<Rightarrow> operation \<Rightarrow> node_manager \<Rightarrow> node_manager option" where
  "run_operation k (AddNode mid n) s = map_option snd (add_node k mid n s)"
| "run_operation k (RestoreNodes node_list) s = map_option snd (restore_nodes k node_list s)"
| "run_operation k (SetStatus g d) s = map_option snd (set_status k g d s)"
| "run_operation k (GetStatus idx) s = state_or_unchanged s (get_status k idx s)"
| "run_operation k (InitState g) s = state_or_unchanged s (init_state_node k g s)"
| "run_operation k Initialize s = state_or_none (initialize k s)"
| "run_operation k Finalize s = Some (finalize s)"
| "run_operation k EnsureValidThreadLocalIds s = state_or_none (ensure_valid_thread_local_ids k s)"
| "run_operation k PrepareNodes s =
     (case prepare_nodes k s of
        (Some VectorIndexOutOfRange, s') \<Rightarrow> None
      | (r, s') \<Rightarrow> Some s')"
| "run_operation k ResetNodesState s = Some (reset_nodes_state k s)"
| "run_operation k ReinitNodes s = Some (reinit_nodes k s)"
| "run_operation k PostRunCleanup s = state_or_none (post_run_cleanup k s)"
| "run_operation k FinalizeNodes s = state_or_none (finalize_nodes k s)"
| "run_operation k CheckWfrUse s = Some (check_wfr_use k s)"
| "run_operation k (GetNode g t) s = state_or_unchanged s (map_sum id (\<lambda>p. s) (get_node s g t))"
| "run_operation k (GetThreadSiblings g) s =
     state_or_unchanged s (map_sum id (\<lambda>p. s) (get_thread_siblings s g))"
| "run_operation k (IsLocalNode n) s = Some s"
| "run_operation k Print s = Some s"
| "run_operation k GetStatusOfManager s = Some s"
| "run_operation k (SetStatusOfManager d) s = Some s"

fun run_operations :: "kernel \<Rightarrow> operation list \<Rightarrow> node_manager \<Rightarrow> node_manager option" where
  "run_operations k [] s = Some s"
| "run_operations k (x # xs) s =
     (case run_operation k x s of None \<Rightarrow> None | Some s' \<Rightarrow> run_operations k xs s')"

subsection \<open>The nodes a call creates\<close>

text \<open>
  The node that \<^verbatim>\<open>add_node\<close> leaves at a new address, written out for each branch: a
  replica of a replicated device for thread \<open>t\<close>, and the container of the replicas, which
  are stored behind it.
\<close>

definition new_replica :: "kernel \<Rightarrow> index \<Rightarrow> model \<Rightarrow> index \<Rightarrow> nat \<Rightarrow> node" where
  "new_replica k mid m g t =
     (prototype m)\<lparr>thread_siblings := [], gid := g, model_id := int mid, thread := int t,
                   vp := thread_to_vp k (int t)\<rparr>"

definition new_container :: "kernel \<Rightarrow> index \<Rightarrow> addr \<Rightarrow> node" where
  "new_container k g p =
     (prototype (get_model k 0))\<lparr>thread_siblings := [Suc p..<Suc p + get_num_threads k],
                                  model_id := - 1, gid := g\<rparr>"

subsection \<open>What the manager takes for granted\<close>

text \<open>
  \<^verbatim>\<open>next_local_gid_\<close> steps by the number of simulation processes and names
  \<^verbatim>\<open>curr_gid % sim_procs\<close> the process responsible for a GID. That is the contract with
  the VP manager: the virtual process suggested for a GID is local exactly on the
  simulation process whose rank is the GID modulo the number of simulation processes.
\<close>

definition round_robin_locality :: "kernel \<Rightarrow> bool" where
  "round_robin_locality k \<longleftrightarrow>
     (\<forall>g. is_local_vp k (suggest_vp k g) \<longleftrightarrow>
            (get_rank k < get_num_sim_processes k \<and>
             g mod get_num_sim_processes k = get_rank k))"

text \<open>
  The ranges of the C types: the number of simulation processes is a positive \<^verbatim>\<open>int\<close>,
  there is at least one thread, and a GID within the capacity of the registry can be
  stepped by the number of processes without leaving the 64 bits of an \<^verbatim>\<open>index\<close>.
\<close>

definition kernel_in_range :: "kernel \<Rightarrow> bool" where
  "kernel_in_range k \<longleftrightarrow>
     0 < get_num_threads k \<and> get_num_threads k < 2 ^ 31 \<and>
     0 < get_num_sim_processes k \<and> get_num_sim_processes k < 2 ^ 31 \<and>
     max_size k + get_num_sim_processes k \<le> 2 ^ 64"


text \<open>
  The hooks are methods of the node classes. The setters of the GID, the thread and the
  virtual process of a node are private to the node manager, so no hook changes them.
\<close>

definition keeps_placement :: "(node \<Rightarrow> node) \<Rightarrow> bool" where
  "keeps_placement f \<longleftrightarrow>
     (\<forall>n. gid (f n) = gid n \<and> thread (f n) = thread n \<and> vp (f n) = vp n)"

definition hooks_keep_placement :: "kernel \<Rightarrow> bool" where
  "hooks_keep_placement k \<longleftrightarrow>
     keeps_placement (init_state k) \<and>
     keeps_placement (\<lambda>n. fst (init_buffers k n)) \<and>
     keeps_placement (\<lambda>n. fst (calibrate k n)) \<and>
     keeps_placement (post_run_cleanup_hook k) \<and>
     keeps_placement (finalize_hook k) \<and>
     keeps_placement (get_status_base k) \<and>
     (\<forall>d. keeps_placement (\<lambda>n. fst (set_status_base k d n)))"

text \<open>
  The nodes that exist for the manager: the nodes of the registry and the replicas behind
  its containers.
\<close>

definition registered :: "node_manager \<Rightarrow> addr \<Rightarrow> bool" where
  "registered s a \<longleftrightarrow>
     list_ex (\<lambda>e. snd e = a \<or> a \<in> set (thread_siblings (pool s (snd e))))
       (entries (local_nodes s))"

text \<open>
  A node is placed by the topology when its virtual process is the one suggested for
  its GID and its thread is the thread of that virtual process.
\<close>

definition placed :: "kernel \<Rightarrow> node \<Rightarrow> bool" where
  "placed k n \<longleftrightarrow>
     thread n = vp_to_thread k (suggest_vp k (gid n)) \<and> vp n = suggest_vp k (gid n)"

text \<open>
  How \<^verbatim>\<open>add_node\<close> is to place a node \<open>x\<close> that it creates for model \<open>m\<close>, by the branch
  that the model selects; \<open>n0\<close> is the count of global receivers before the call and \<open>lo\<close>
  the first GID of the call. A global receiver goes to the recording virtual process
  suggested for its number among the global receivers; a node with proxies is placed by
  the topology; a replica of a replicated model is owned by a thread of the process and
  by the virtual process of that thread, and the container of the replicas is left as
  the prototype of the container model has it; a node with one instance per process is
  owned by thread 0 and its virtual process.
\<close>

definition branch_placement :: "kernel \<Rightarrow> model \<Rightarrow> index \<Rightarrow> index \<Rightarrow> node \<Rightarrow> bool" where
  "branch_placement k m n0 lo x \<longleftrightarrow>
     (if potential_global_receiver m \<and> 0 < get_num_rec_processes k
      then vp x = suggest_rec_vp k (index_add n0 (gid x - lo)) \<and> thread x = vp_to_thread k (vp x)
      else if has_proxies m then placed k x
      else if \<not> one_node_per_process m
      then (if thread_siblings x = []
            then 0 \<le> thread x \<and> thread x < int (get_num_threads k) \<and>
                 vp x = thread_to_vp k (thread x)
            else thread x = thread (prototype (get_model k 0)) \<and>
                 vp x = vp (prototype (get_model k 0)))
      else thread x = 0 \<and> vp x = thread_to_vp k 0)"



text \<open>
  A step from \<open>s\<close> to \<open>s'\<close> that only creates nodes: the store grows at its end, every new
  node satisfies \<open>Q\<close>, the registry is extended by entries for new nodes, and the view
  cache is not touched.
\<close>

definition grown :: "(node \<Rightarrow> bool) \<Rightarrow> node_manager \<Rightarrow> node_manager \<Rightarrow> bool" where
  "grown Q s s' \<longleftrightarrow>
     next_addr s \<le> next_addr s' \<and>
     (\<forall>a<next_addr s. pool s' a = pool s a) \<and>
     (\<forall>a. next_addr s \<le> a \<and> a < next_addr s' \<longrightarrow> Q (pool s' a)) \<and>
     (\<exists>new. entries (local_nodes s') = entries (local_nodes s) @ new \<and>
            (\<forall>e\<in>set new. next_addr s \<le> snd e \<and> snd e < next_addr s')) \<and>
     nodes_vec s' = nodes_vec s \<and> wfr_nodes_vec s' = wfr_nodes_vec s \<and>
     nodes_vec_network_size s' = nodes_vec_network_size s"


text \<open>
  From \<open>s\<close> to \<open>s'\<close> no node that exists in \<open>s\<close> has changed its GID, its thread or its
  virtual process.
\<close>

definition placement_kept :: "node_manager \<Rightarrow> node_manager \<Rightarrow> bool" where
  "placement_kept s s' \<longleftrightarrow>
     next_addr s \<le> next_addr s' \<and>
     (\<forall>a<next_addr s. gid (pool s' a) = gid (pool s a) \<and>
                      thread (pool s' a) = thread (pool s a) \<and>
                      vp (pool s' a) = vp (pool s a))"


text \<open>Every GID in the registry is at most the maximum it tracks.\<close>

definition registry_bounded :: "node_manager \<Rightarrow> bool" where
  "registry_bounded s \<longleftrightarrow>
     list_all (\<lambda>e. fst e \<le> get_max_gid (local_nodes s)) (entries (local_nodes s))"

subsection \<open>A concrete kernel\<close>

text \<open>
  The constructor of the manager: an empty registry, and a view cache recorded at size
  zero to force the first rebuild.
\<close>

definition blank_node :: node where
  "blank_node =
     \<lparr>gid = 0, model_id = 0, thread = 0, vp = - 1, node_has_proxies = False,
      local_receiver = False, thread_lid = 0, buffers_initialized = False,
      is_frozen = False, node_uses_wfr = False, thread_siblings = []\<rparr>"

definition NodeManager :: node_manager where
  "NodeManager =
     \<lparr>local_nodes = \<lparr>entries = [], max_gid_seen = 0\<rparr>,
      pool = (\<lambda>p. blank_node), next_addr = 0, n_gsd = 0,
      nodes_vec = [], wfr_nodes_vec = [], wfr_is_used = False,
      nodes_vec_network_size = 0, num_active_nodes = 0,
      model_ranges = [], off_grid_communication = False\<rparr>"

text \<open>
  Four models: the sibling container (model 0), a neuron with proxies (1), a replicated
  device without proxies (2) and a device with one instance per process (3).
\<close>

definition example_model :: "index \<Rightarrow> model" where
  "example_model i =
     \<lparr>has_proxies = (i = 1), potential_global_receiver = False,
      one_node_per_process = (i = 3), is_off_grid = False,
      prototype = blank_node\<lparr>node_has_proxies := (i = 1)\<rparr>\<rparr>"

text \<open>
  Modelled from the spec: the VP manager is not part of the sources at hand. The
  placement is round robin over the simulation virtual processes: GID \<open>g\<close> goes to virtual
  process \<open>g mod (P * T)\<close>, which lives on process \<open>vp mod P\<close> as its thread \<open>vp div P\<close>.
  \<open>example_kernel r P T\<close> is the kernel as process \<open>r\<close> of \<open>P\<close> simulation processes with
  \<open>T\<close> threads each sees it, with no recording processes, room for 1000 GIDs, and hooks
  that mark the buffers as initialised and throw for no node; a property record can
  freeze a node. The models 1 and 2 have the names \<open>neuron\<close> and \<open>device\<close>.
\<close>

definition example_kernel :: "nat \<Rightarrow> nat \<Rightarrow> nat \<Rightarrow> kernel" where
  "example_kernel r P T =
     \<lparr>get_num_node_models = 4, get_model = example_model, get_num_threads = T,
      get_rank = r, get_num_sim_processes = P, get_num_rec_processes = 0,
      suggest_vp = (\<lambda>g. int (g mod (P * T))),
      suggest_rec_vp = (\<lambda>g. int (P * T + g)),
      vp_to_thread = (\<lambda>v. v div int P),
      thread_to_vp = (\<lambda>t. t * int P + int r),
      is_local_vp = (\<lambda>v. 0 \<le> v \<and> v < int (P * T) \<and> v mod int P = int r),
      max_size = 1000,
      init_state = (\<lambda>n. n),
      init_buffers = (\<lambda>n. (n\<lparr>buffers_initialized := True\<rparr>, None)),
      calibrate = (\<lambda>n. (n, None)),
      post_run_cleanup_hook = (\<lambda>n. n),
      finalize_hook = (\<lambda>n. n),
      is_proxy = (\<lambda>n. False),
      set_status_base = (\<lambda>d n. (n\<lparr>is_frozen := (map_of d ''frozen'' = Some ''true'')\<rparr>, None)),
      all_entries_accessed = (\<lambda>d n. True),
      get_status_base = (\<lambda>n. n),
      any_true = (\<lambda>b. b),
      get_model_id = (\<lambda>name. if name = ''neuron'' then 1 else if name = ''device'' then 2 else - 1),
      get_proxy_node = (\<lambda>t g. blank_node\<lparr>gid := g, thread := t\<rparr>)\<rparr>"

text \<open>
  States for the examples: what a call leaves behind, starting from the constructor. In
  \<open>example_remote\<close> process 0 of two processes has created one neuron, whose GID 1 belongs
  to process 1; in \<open>example_neuron\<close> a single process has created one neuron; in
  \<open>example_device\<close> a single process with two threads has created one replicated device.
\<close>

definition state_after :: "('a \<times> node_manager) option \<Rightarrow> node_manager" where
  "state_after r = (case r of Some (x, s) \<Rightarrow> s | None \<Rightarrow> NodeManager)"

definition example_remote :: node_manager where
  "example_remote = state_after (add_node (example_kernel 0 2 1) 1 1 NodeManager)"

definition example_neuron :: node_manager where
  "example_neuron = state_after (add_node (example_kernel 0 1 1) 1 1 NodeManager)"

definition example_device :: node_manager where
  "example_device = state_after (add_node (example_kernel 0 1 2) 2 1 NodeManager)"

text \<open>
  The view of a process before and after it creates one neuron: the first state is what
  the constructor and the first rebuild leave, the second what \<^verbatim>\<open>add_node\<close> makes of it,
  the third what the next rebuild makes of that.
\<close>

definition state_of :: "failure + node_manager \<Rightarrow> node_manager" where
  "state_of r = (case r of Inr s \<Rightarrow> s | Inl e \<Rightarrow> NodeManager)"

definition example_view0 :: "kernel \<Rightarrow> node_manager" where
  "example_view0 k = state_of (ensure_valid_thread_local_ids k NodeManager)"

definition example_view1 :: "kernel \<Rightarrow> node_manager" where
  "example_view1 k = state_after (add_node k 1 1 (example_view0 k))"

definition example_view2 :: "kernel \<Rightarrow> node_manager" where
  "example_view2 k = state_of (ensure_valid_thread_local_ids k (example_view1 k))"

text \<open>
  A single process with \<open>T\<close> threads that has created \<open>n\<close> neurons and rebuilt its view,
  and a kernel in which the calibration of the node with GID \<open>g\<close> throws.
\<close>

definition example_prepared :: "nat \<Rightarrow> int \<Rightarrow> node_manager" where
  "example_prepared T n =
     state_of (ensure_valid_thread_local_ids (example_kernel 0 1 T)
                 (state_after (add_node (example_kernel 0 1 T) 1 n NodeManager)))"

definition failing_kernel :: "nat \<Rightarrow> index \<Rightarrow> kernel" where
  "failing_kernel T g =
     (example_kernel 0 1 T)
       \<lparr>calibrate := (\<lambda>n. if gid n = g then (n, Some ''calibration failed'') else (n, None))\<rparr>"

text \<open>
  A single process with two threads that has created three neurons, a run of operations
  of the manager from there, and the state the run ends in.
\<close>

definition example_neurons :: node_manager where
  "example_neurons = state_after (add_node (example_kernel 0 1 2) 1 3 NodeManager)"

definition example_lifecycle :: "operation list" where
  "example_lifecycle =
     [Initialize, AddNode 2 1, RestoreNodes [[(''model'', ''neuron''), (''frozen'', ''true'')]],
      SetStatus 1 [(''frozen'', ''true'')], SetStatus 4 [(''frozen'', ''true'')], GetStatus 2,
      InitState 3, EnsureValidThreadLocalIds, PrepareNodes, PostRunCleanup, ResetNodesState,
      ReinitNodes, FinalizeNodes, CheckWfrUse, GetNode 4 1, GetThreadSiblings 4, AddNode 3 1]"

definition example_run :: node_manager where
  "example_run =
     (case run_operations (example_kernel 0 1 2) example_lifecycle example_neurons of
        Some s \<Rightarrow> s
      | None \<Rightarrow> NodeManager)"

text \<open>
  The same process after it has created one device with one instance per process, and a
  recording process, rank 1 behind one simulation process, whose model 3 is a global
  receiver and which has created two of them: the virtual process of the recording
  process is 1, on its thread 0.
\<close>

definition example_single :: node_manager where
  "example_single = state_after (add_node (example_kernel 0 1 2) 3 1 NodeManager)"

definition example_recording_kernel :: kernel where
  "example_recording_kernel =
     (example_kernel 1 1 1)
       \<lparr>get_model := (\<lambda>i. (example_model i)\<lparr>potential_global_receiver := (i = 3)\<rparr>),
        get_num_rec_processes := 1,
        suggest_rec_vp := (\<lambda>g. 1),
        vp_to_thread := (\<lambda>v. 0),
        is_local_vp := (\<lambda>v. v = 1)\<rparr>"

definition example_receivers :: node_manager where
  "example_receivers = state_after (add_node example_recording_kernel 3 2 NodeManager)"

section \<open>The concrete kernel\<close>

lemma example_kernel_simps:
  "get_num_node_models (example_kernel r P T) = 4"
  "get_model (example_kernel r P T) = example_model"
  "get_num_threads (example_kernel r P T) = T"
  "get_rank (example_kernel r P T) = r"
  "get_num_sim_processes (example_kernel r P T) = P"
  "get_num_rec_processes (example_kernel r P T) = 0"
  "suggest_vp (example_kernel r P T) g = int (g mod (P * T))"
  "vp_to_thread (example_kernel r P T) v = v div int P"
  "thread_to_vp (example_kernel r P T) t = t * int P + int r"
  "is_local_vp (example_kernel r P T) v \<longleftrightarrow> 0 \<le> v \<and> v < int (P * T) \<and> v mod int P = int r"
  "max_size (example_kernel r P T) = 1000"
  by (simp_all add: example_kernel_def)

lemma example_round_robin:
  assumes "0 < P" "0 < T"
  shows "round_robin_locality (example_kernel r P T)"
proof -
  have "int (g mod (P * T)) mod int P = int r \<longleftrightarrow> r < P \<and> g mod P = r" for g
  proof -
    have "int (g mod (P * T)) mod int P = int (g mod (P * T) mod P)" by (simp add: zmod_int)
    also have "g mod (P * T) mod P = g mod P" by (simp add: mod_mod_cancel)
    finally have "int (g mod (P * T)) mod int P = int (g mod P)" .
    moreover have "g mod P < P" using assms by simp
    ultimately show ?thesis by auto
  qed
  moreover have "int (g mod (P * T)) < int P * int T" for g
  proof -
    have "g mod (P * T) < P * T" using assms by simp
    then have "int (g mod (P * T)) < int (P * T)" by (simp only: of_nat_less_iff)
    then show ?thesis by simp
  qed
  ultimately show ?thesis
    unfolding round_robin_locality_def example_kernel_simps by simp
qed

lemma example_in_range:
  "0 < P \<Longrightarrow> P < 1000 \<Longrightarrow> 0 < T \<Longrightarrow> T < 1000 \<Longrightarrow> kernel_in_range (example_kernel r P T)"
  by (simp add: kernel_in_range_def example_kernel_simps)

lemmas eval_defs =
  add_node_def example_kernel_simps NodeManager_def example_model_def index_add_def
  index_sub_def index_of_long_def get_max_gid_def add_proxied_nodes_def local_gid_loop.simps
  next_local_gid_def Let_def set_off_grid_spiking_def add_remote_node_def san_add_remote_node_def state_after_def
  add_proxied_node_def allocate_def update_node_def add_local_node_def san_add_local_node_def
  add_sibling_container_def add_replica_def add_single_node_def blank_node_def
  get_node_by_gid_def num_thread_siblings_def get_thread_sibling_def

section \<open>Stepping to the next local GID\<close>

lemma index_add_nowrap: "a + b < 2 ^ 64 \<Longrightarrow> index_add a b = a + b"
  by (simp add: index_add_def)

lemma index_sub_nowrap:
  assumes "b \<le> a" "a < 2 ^ 64"
  shows "index_sub a b = a - b"
proof -
  have 1: "b mod 2 ^ 64 = b" using assms by (intro mod_less) linarith
  have 2: "a + 2 ^ 64 - b = (a - b) + 2 ^ 64" using assms(1) by (rule Nat.diff_add_assoc2)
  have 3: "(a - b) mod 2 ^ 64 = a - b" using assms by (intro mod_less) linarith
  show ?thesis unfolding index_sub_def 1 2 by (simp only: mod_add_self2 3)
qed

lemma next_local_gid_rec:
  "get_rank k \<ge> get_num_sim_processes k \<Longrightarrow> g + get_num_sim_processes k < 2 ^ 64
   \<Longrightarrow> next_local_gid k g = g + get_num_sim_processes k"
  by (simp add: next_local_gid_def index_add_nowrap)

lemma next_local_gid_sim:
  assumes "get_rank k < get_num_sim_processes k" "get_num_sim_processes k < 2 ^ 31"
    "g + get_num_sim_processes k < 2 ^ 64"
  shows "next_local_gid k g =
     (if g mod get_num_sim_processes k = get_rank k then g + get_num_sim_processes k
      else g + (get_num_sim_processes k + get_rank k - g mod get_num_sim_processes k) mod get_num_sim_processes k)"
proof -
  let ?P = "get_num_sim_processes k" and ?r = "get_rank k"
  have P: "0 < ?P" using assms by simp
  have q: "g mod ?P < ?P" using P by simp
  have a: "index_add ?P ?r = ?P + ?r" using assms by (intro index_add_nowrap) simp
  have b: "index_sub (?P + ?r) (g mod ?P) = ?P + ?r - g mod ?P"
    using assms q by (intro index_sub_nowrap) (simp_all add: trans_le_add1 less_imp_le)
  have "(?P + ?r - g mod ?P) mod ?P < ?P" using P by simp
  then have c: "index_add g ((?P + ?r - g mod ?P) mod ?P) = g + (?P + ?r - g mod ?P) mod ?P"
    using assms by (intro index_add_nowrap) linarith
  show ?thesis using assms a b c
    by (simp add: next_local_gid_def Let_def index_add_nowrap)
qed

lemma step_up:
  fixes P r g :: nat
  assumes "r < P" "g mod P \<noteq> r" "d = (P + r - g mod P) mod P"
  shows "0 < d" and "d < P" and "(g + d) mod P = r"
    and "\<And>h. g < h \<Longrightarrow> h mod P = r \<Longrightarrow> g + d \<le> h"
proof -
  let ?q = "g mod P"
  note d_def = assms(3)
  have q: "?q < P" using assms by simp
  have dval: "d = (if ?q < r then r - ?q else P + r - ?q)"
  proof (cases "?q < r")
    case True
    then have "P + r - ?q = P + (r - ?q)" by simp
    then have "d = (r - ?q) mod P" by (simp add: d_def)
    with True assms show ?thesis by simp
  next
    case False
    with assms have "r < ?q" by simp
    then have "P + r - ?q < P" using q by simp
    then have "(P + r - ?q) mod P = P + r - ?q" by simp
    then show ?thesis using False d_def by simp
  qed
  show "0 < d"
  proof (cases "?q < r")
    case True
    then show ?thesis using dval by simp
  next
    case False
    then have "d = P + r - ?q" using dval by simp
    then show ?thesis using q by linarith
  qed
  show "d < P" using assms by (simp add: d_def)
  have "(g + d) mod P = (?q + d) mod P" by (simp add: mod_add_left_eq)
  also have "\<dots> = r"
  proof (cases "?q < r")
    case True
    then have "?q + d = r" using dval by simp
    then show ?thesis using assms by simp
  next
    case False
    then have "d = P + r - ?q" using dval by simp
    then have "?q + d = P + r" using q by linarith
    then show ?thesis using assms by simp
  qed
  finally show "(g + d) mod P = r" .
  fix h assume h: "g < h" "h mod P = r"
  show "g + d \<le> h"
  proof (rule ccontr)
    assume n: "\<not> g + d \<le> h"
    define e where "e = h - g"
    have e: "0 < e" "e < d" "h = g + e" using h n by (simp_all add: e_def)
    have "(?q + e) mod P = h mod P" using e by (simp add: mod_add_left_eq)
    then have qe: "(?q + e) mod P = r" using h by simp
    show False
    proof (cases "?q < r")
      case True
      then have "?q + e < r" using dval e by simp
      then have "(?q + e) mod P = ?q + e" using assms by simp
      with qe \<open>?q + e < r\<close> show False by simp
    next
      case False
      then have "d = P + r - ?q" using dval by simp
      then have lt: "?q + e < P + r" using e q by linarith
      have gt: "r < ?q + e" using False assms(2) e by linarith
      show False
      proof (cases "?q + e < P")
        case True
        then have "(?q + e) mod P = ?q + e" by simp
        with qe gt show False by simp
      next
        case False
        then have "(?q + e) mod P = (?q + e - P) mod P" by (simp add: le_mod_geq)
        moreover have "?q + e - P < P" using lt assms by linarith
        ultimately have "(?q + e) mod P = ?q + e - P" by simp
        with qe lt False show False by simp
      qed
    qed
  qed
qed

lemma step_full:
  fixes P r g h :: nat
  assumes "r < P" "g mod P = r" "g < h" "h mod P = r"
  shows "g + P \<le> h"
proof (rule ccontr)
  assume n: "\<not> g + P \<le> h"
  define e where "e = h - g"
  have e: "0 < e" "e < P" "h = g + e" using assms n by (simp_all add: e_def)
  have "(g mod P + e) mod P = h mod P" using e by (simp add: mod_add_left_eq)
  then have qe: "(r + e) mod P = r" using assms by simp
  show False
  proof (cases "r + e < P")
    case True
    then show False using qe e by simp
  next
    case False
    then have "(r + e) mod P = (r + e - P) mod P" by (simp add: le_mod_geq)
    moreover have "r + e - P < P" using e assms by linarith
    ultimately have "(r + e) mod P = r + e - P" by simp
    with qe e False show False by simp
  qed
qed

lemma filter_upt_skip:
  assumes "a \<le> b" "\<And>x. a \<le> x \<Longrightarrow> x < b \<Longrightarrow> \<not> Q x"
  shows "filter Q [a..<c] = filter Q [b..<c]"
proof (cases "b \<le> c")
  case True
  then have "[a..<c] = [a..<b] @ [b..<c]"
    using assms(1) upt_add_eq_append[of a b "c - b"] by simp
  moreover have "filter Q [a..<b] = []" using assms(2) by (simp add: filter_empty_conv)
  ultimately show ?thesis by simp
next
  case False
  then have "filter Q [a..<c] = []" using assms(2) by (simp add: filter_empty_conv)
  moreover have "filter Q [b..<c] = []" using False by simp
  ultimately show ?thesis by (simp only:)
qed

lemma loop_no_local:
  assumes "max_gid < 2 ^ 64"
  shows "(\<And>x. g \<le> x \<Longrightarrow> x < max_gid \<Longrightarrow> \<not> is_local_vp k (suggest_vp k x))
    \<Longrightarrow> local_gid_loop k mid m max_gid g s vis = Some (s, vis @ [g..<max_gid])"
proof (induction "max_gid - g" arbitrary: g vis rule: less_induct)
  case less
  show ?case
  proof (cases "g < max_gid")
    case False
    then show ?thesis by (subst local_gid_loop.simps) simp
  next
    case True
    have nl: "\<not> is_local_vp k (suggest_vp k g)" using less.prems True by simp
    have "g + 1 < 2 ^ 64" using True assms by linarith
    then have nx: "index_add g 1 = Suc g" by (simp add: index_add_nowrap)
    have "local_gid_loop k mid m max_gid (Suc g) s (vis @ [g]) = Some (s, (vis @ [g]) @ [Suc g..<max_gid])"
      using True less.prems by (intro less.hyps) simp_all
    then show ?thesis using True nl nx
      by (subst local_gid_loop.simps) (simp add: upt_conv_Cons)
  qed
qed

lemma loop_sim:
  assumes sim: "get_rank k < get_num_sim_processes k"
    and P31: "get_num_sim_processes k < 2 ^ 31"
    and nowrap: "max_gid + get_num_sim_processes k \<le> 2 ^ 64"
    and H: "\<And>x. is_local_vp k (suggest_vp k x) \<longleftrightarrow> x mod get_num_sim_processes k = get_rank k"
  shows "g mod get_num_sim_processes k = get_rank k \<Longrightarrow>
    local_gid_loop k mid m max_gid g s vis =
      Some (foldl (\<lambda>s g. add_proxied_node k mid m g s) s
              (filter (\<lambda>x. is_local_vp k (suggest_vp k x)) [g..<max_gid]),
            vis @ filter (\<lambda>x. is_local_vp k (suggest_vp k x)) [g..<max_gid])"
proof (induction "max_gid - g" arbitrary: g s vis rule: less_induct)
  case less
  let ?P = "get_num_sim_processes k"
  let ?L = "\<lambda>x. is_local_vp k (suggest_vp k x)"
  show ?case
  proof (cases "g < max_gid")
    case False
    then show ?thesis by (subst local_gid_loop.simps) simp
  next
    case True
    have Lg: "?L g" using H less.prems by simp
    have "g + ?P < 2 ^ 64" using True nowrap by linarith
    then have nx: "next_local_gid k g = g + ?P"
      using next_local_gid_sim[OF sim P31, of g] less.prems by simp
    have "max_gid - (g + ?P) < max_gid - g" using True sim by linarith
    moreover have "(g + ?P) mod ?P = get_rank k" using less.prems by simp
    ultimately have IH: "local_gid_loop k mid m max_gid (g + ?P) s' vis' =
      Some (foldl (\<lambda>s g. add_proxied_node k mid m g s) s' (filter ?L [g + ?P..<max_gid]),
            vis' @ filter ?L [g + ?P..<max_gid])" for s' vis'
      by (rule less.hyps)
    have "\<not> ?L x" if "Suc g \<le> x" "x < g + ?P" for x
      using step_full[OF sim less.prems, of x] that H by auto
    then have "filter ?L [Suc g..<max_gid] = filter ?L [g + ?P..<max_gid]"
      using sim by (intro filter_upt_skip) simp_all
    then have fl: "filter ?L [g..<max_gid] = g # filter ?L [g + ?P..<max_gid]"
      using True Lg by (simp add: upt_conv_Cons)
    show ?thesis using True Lg
      by (subst local_gid_loop.simps) (simp add: nx IH fl)
  qed
qed

section \<open>The range of GIDs of a call\<close>

lemma foldl_max_ge: "a \<le> foldl max (a::nat) xs"
  by (induction xs arbitrary: a) (auto intro: order_trans[OF max.cobounded1])

lemma foldl_max_mem: "x \<in> set xs \<Longrightarrow> x \<le> foldl max (a::nat) xs"
proof (induction xs arbitrary: a)
  case Nil
  then show ?case by simp
next
  case (Cons y ys)
  then show ?case
    using foldl_max_ge[of "max a y" ys] by auto
qed

lemma foldl_max_le: "a \<le> b \<Longrightarrow> (\<And>x. x \<in> set xs \<Longrightarrow> x \<le> b) \<Longrightarrow> foldl max (a::nat) xs \<le> b"
  by (induction xs arbitrary: a) auto

lemma get_max_gid_foldl:
  assumes "\<And>s g. get_max_gid (local_nodes (f s g)) = max (get_max_gid (local_nodes s)) g"
  shows "get_max_gid (local_nodes (foldl f s xs)) = foldl max (get_max_gid (local_nodes s)) xs"
  by (induction xs arbitrary: s) (simp_all add: assms)

lemma foldl_max_upt:
  assumes "a < b" "c < b"
  shows "foldl max c [a..<b] = b - 1"
proof (rule antisym)
  show "foldl max c [a..<b] \<le> b - 1" using assms by (intro foldl_max_le) auto
  have "b - 1 \<in> set [a..<b]" using assms by auto
  then show "b - 1 \<le> foldl max c [a..<b]" by (rule foldl_max_mem)
qed

lemma max_gid_add_global_receiver:
  "get_max_gid (local_nodes (add_global_receiver k mid m s g)) = max (get_max_gid (local_nodes s)) g"
  by (simp add: add_global_receiver_def Let_def allocate_def update_node_def add_local_node_def
      add_remote_node_def increment_n_gsd_def san_add_local_node_def san_add_remote_node_def
      get_max_gid_def get_n_gsd_def)

lemma max_gid_add_proxied_node:
  "get_max_gid (local_nodes (add_proxied_node k mid m g s)) = max (get_max_gid (local_nodes s)) g"
  by (simp add: add_proxied_node_def Let_def allocate_def update_node_def add_local_node_def
      san_add_local_node_def get_max_gid_def)

lemma max_gid_add_single_node:
  "get_max_gid (local_nodes (add_single_node k mid m s g)) = max (get_max_gid (local_nodes s)) g"
  by (simp add: add_single_node_def Let_def allocate_def update_node_def add_local_node_def
      san_add_local_node_def get_max_gid_def)

lemma local_nodes_add_replica:
  "local_nodes (add_replica k mid m g c s t) = local_nodes s"
  by (simp add: add_replica_def Let_def allocate_def update_node_def)

lemma local_nodes_foldl_add_replica:
  "local_nodes (foldl (add_replica k mid m g c) s ts) = local_nodes s"
  by (induction ts arbitrary: s) (simp_all add: local_nodes_add_replica)

lemma max_gid_add_sibling_container:
  "get_max_gid (local_nodes (add_sibling_container k mid m s g)) = max (get_max_gid (local_nodes s)) g"
  by (simp add: add_sibling_container_def Let_def allocate_def update_node_def add_local_node_def
      san_add_local_node_def get_max_gid_def local_nodes_foldl_add_replica)

lemma add_proxied_nodes_closed:
  assumes rr: "round_robin_locality k"
    and P0: "0 < get_num_sim_processes k"
    and P31: "get_num_sim_processes k < 2 ^ 31"
    and nowrap: "max_gid + get_num_sim_processes k \<le> 2 ^ 64"
    and lt: "min_gid < max_gid"
  shows "\<exists>vis. add_proxied_nodes k mid m min_gid max_gid s =
      Some ((\<lambda>s'. if \<not> is_local_vp k (suggest_vp k (max_gid - 1))
                  then add_remote_node (max_gid - 1) s' else s')
              (foldl (\<lambda>s g. add_proxied_node k mid m g s) s
                 (filter (\<lambda>x. is_local_vp k (suggest_vp k x)) [min_gid..<max_gid])),
            vis)
      \<and> (get_rank k < get_num_sim_processes k \<longrightarrow>
           (\<forall>v\<in>set vis. v mod get_num_sim_processes k = get_rank k))"
proof -
  let ?P = "get_num_sim_processes k"
  let ?L = "\<lambda>x. is_local_vp k (suggest_vp k x)"
  let ?f = "\<lambda>s g. add_proxied_node k mid m g s"
  have m64: "max_gid < 2 ^ 64" using nowrap P0 by linarith
  have sub: "index_sub max_gid 1 = max_gid - 1"
    using lt m64 by (intro index_sub_nowrap) linarith+
  show ?thesis
  proof (cases "get_rank k < ?P")
    case sim: True
    have H: "?L x \<longleftrightarrow> x mod ?P = get_rank k" for x
      using rr sim by (simp add: round_robin_locality_def)
    show ?thesis
    proof (cases "?L min_gid")
      case True
      then have "min_gid mod ?P = get_rank k" using H by simp
      from loop_sim[OF sim P31 nowrap H this, of mid m s "[]"] True sub H
      show ?thesis by (simp add: add_proxied_nodes_def)
    next
      case False
      then have ne: "min_gid mod ?P \<noteq> get_rank k" using H by simp
      define d where "d = (?P + get_rank k - min_gid mod ?P) mod ?P"
      note su = step_up[OF sim ne d_def]
      have "min_gid + ?P < 2 ^ 64" using lt nowrap by linarith
      then have nx: "next_local_gid k min_gid = min_gid + d"
        using next_local_gid_sim[OF sim P31, of min_gid] ne by (simp add: d_def)
      have "\<not> ?L x" if "min_gid \<le> x" "x < min_gid + d" for x
      proof (cases "x = min_gid")
        case True
        then show ?thesis using False by simp
      next
        case False
        then have "min_gid < x" using that by simp
        then show ?thesis using su(4)[of x] that H by auto
      qed
      then have fl: "filter ?L [min_gid..<max_gid] = filter ?L [min_gid + d..<max_gid]"
        by (intro filter_upt_skip) simp_all
      from loop_sim[OF sim P31 nowrap H su(3), of mid m s "[]"] False sub nx fl H
      show ?thesis by (simp add: add_proxied_nodes_def)
    qed
  next
    case rec: False
    have nL: "\<not> ?L x" for x using rr rec by (simp add: round_robin_locality_def)
    have "min_gid + ?P < 2 ^ 64" using lt nowrap by linarith
    then have nx: "next_local_gid k min_gid = min_gid + ?P"
      using rec by (intro next_local_gid_rec) simp_all
    have "local_gid_loop k mid m max_gid (min_gid + ?P) s [] = Some (s, [] @ [min_gid + ?P..<max_gid])"
      using nL by (intro loop_no_local m64) simp
    then show ?thesis using nL nx sub rec by (simp add: add_proxied_nodes_def)
  qed
qed

lemma foldl_max_filter_last:
  assumes "a < b" "c < b"
  shows "foldl max c (filter Q [a..<b]) < b"
    and "Q (b - 1) \<Longrightarrow> foldl max c (filter Q [a..<b]) = b - 1"
proof -
  have le: "foldl max c (filter Q [a..<b]) \<le> b - 1" using assms by (intro foldl_max_le) auto
  then show "foldl max c (filter Q [a..<b]) < b" using assms by linarith
  assume "Q (b - 1)"
  then have "b - 1 \<in> set (filter Q [a..<b])" using assms by auto
  then have "b - 1 \<le> foldl max c (filter Q [a..<b])" by (rule foldl_max_mem)
  with le show "foldl max c (filter Q [a..<b]) = b - 1" by simp
qed

lemma add_node_unfold:
  assumes valid: "mid < get_num_node_models k" and n1: "1 \<le> n" and n63: "n < 2 ^ 63"
    and fits: "get_max_gid (local_nodes s) + 1 + nat n \<le> max_size k"
    and kr: "kernel_in_range k"
  shows "add_node k mid n s = add_node_branches k mid n s"
proof -
  let ?P = "get_num_sim_processes k"
  let ?old = "get_max_gid (local_nodes s)"
  let ?min = "?old + 1" and ?max = "?old + 1 + nat n"
  have T: "0 < get_num_threads k" and P0: "0 < ?P" and P31: "?P < 2 ^ 31"
    and cap: "max_size k + ?P \<le> 2 ^ 64"
    using kr by (simp_all add: kernel_in_range_def)
  have max64: "?max < 2 ^ 64" using fits cap P0 by linarith
  have nn: "index_of_long n = nat n"
  proof -
    have "(2::int) ^ 63 \<le> 2 ^ 64" by simp
    then have "n mod 2 ^ 64 = n" using n1 n63 by (intro mod_pos_pos_trivial) linarith+
    then show ?thesis by (simp only: index_of_long_def)
  qed
  have min_eq: "index_add ?old 1 = ?min" using max64 by (intro index_add_nowrap) linarith
  have max_eq: "index_add ?min (nat n) = ?max" using max64 by (intro index_add_nowrap) linarith
  have lt: "?min < ?max" using n1 by linarith
  have sub: "index_sub ?max 1 = ?max - 1" using max64 by (intro index_sub_nowrap) linarith+
  show ?thesis
    using valid n1 T fits lt P0
    by (simp add: add_node_def add_node_branches_def Let_def nn min_eq max_eq sub del: One_nat_def
          split del: if_split cong: if_cong option.case_cong)
qed

lemma get_max_gid_set_off_grid_spiking [simp]:
  "local_nodes (set_off_grid_spiking m s) = local_nodes s"
  by (simp add: set_off_grid_spiking_def)

lemma add_node_result:
  assumes valid: "mid < get_num_node_models k" and n1: "1 \<le> n" and n63: "n < 2 ^ 63"
    and fits: "get_max_gid (local_nodes s) + 1 + nat n \<le> max_size k"
    and kr: "kernel_in_range k" and rr: "round_robin_locality k"
  shows "\<exists>s'. add_node k mid n s =
            Some (Inr (GIDCollectionPrimitive (get_max_gid (local_nodes s) + 1)
                         (get_max_gid (local_nodes s) + nat n) mid), s')
          \<and> get_max_gid (local_nodes s') = get_max_gid (local_nodes s) + nat n"
proof -
  let ?P = "get_num_sim_processes k"
  let ?old = "get_max_gid (local_nodes s)"
  let ?min = "?old + 1" and ?max = "?old + 1 + nat n"
  let ?m = "get_model k mid"
  let ?s1 = "s\<lparr>model_ranges := model_ranges s @ [(mid, ?min, ?max - 1)]\<rparr>"
  let ?H = "GIDCollectionPrimitive ?min (?max - 1) mid"
  have P0: "0 < ?P" and P31: "?P < 2 ^ 31" and cap: "max_size k + ?P \<le> 2 ^ 64"
    using kr by (simp_all add: kernel_in_range_def)
  have lt: "?min < ?max" using n1 by linarith
  have last: "?max - 1 = ?old + nat n" by simp
  have old1: "get_max_gid (local_nodes ?s1) = ?old" by simp
  have nowrap: "?max + ?P \<le> 2 ^ 64" using fits cap by linarith
  have upt_max: "foldl max ?old [?min..<?max] = ?max - 1"
    using lt by (intro foldl_max_upt) linarith+
  note unfold = add_node_unfold[OF valid n1 n63 fits kr, unfolded add_node_branches_def Let_def]
  consider (gr) "potential_global_receiver ?m \<and> get_num_rec_processes k > 0"
    | (hp) "\<not> (potential_global_receiver ?m \<and> get_num_rec_processes k > 0)" "has_proxies ?m"
    | (sc) "\<not> (potential_global_receiver ?m \<and> get_num_rec_processes k > 0)" "\<not> has_proxies ?m"
        "\<not> one_node_per_process ?m"
    | (sn) "\<not> (potential_global_receiver ?m \<and> get_num_rec_processes k > 0)" "\<not> has_proxies ?m"
        "one_node_per_process ?m"
    by blast
  then obtain s2 where
    run: "add_node k mid n s = Some (Inr ?H, set_off_grid_spiking ?m s2)"
    and mx: "get_max_gid (local_nodes s2) = ?max - 1"
  proof cases
    case gr
    let ?s2 = "foldl (add_global_receiver k mid ?m) ?s1 [?min..<?max]"
    have "get_max_gid (local_nodes ?s2) = foldl max ?old [?min..<?max]"
      using get_max_gid_foldl[of "add_global_receiver k mid ?m" ?s1, OF max_gid_add_global_receiver]
      by (simp only: old1)
    moreover have "add_node k mid n s = Some (Inr ?H, set_off_grid_spiking ?m ?s2)"
      using gr by (simp only: unfold simp_thms if_True)
    ultimately show ?thesis using that upt_max by simp
  next
    case hp
    let ?L = "\<lambda>x. is_local_vp k (suggest_vp k x)"
    let ?s2' = "foldl (\<lambda>s g. add_proxied_node k mid ?m g s) ?s1 (filter ?L [?min..<?max])"
    let ?s2 = "if \<not> ?L (?max - 1) then add_remote_node (?max - 1) ?s2' else ?s2'"
    obtain vis where ap: "add_proxied_nodes k mid ?m ?min ?max ?s1 = Some (?s2, vis)"
      using add_proxied_nodes_closed[OF rr P0 P31 nowrap lt, of mid ?m ?s1] by auto
    have m': "get_max_gid (local_nodes ?s2') = foldl max ?old (filter ?L [?min..<?max])"
      using get_max_gid_foldl[of "\<lambda>s g. add_proxied_node k mid ?m g s" ?s1, OF max_gid_add_proxied_node]
      by (simp only: old1)
    have fl: "foldl max ?old (filter ?L [?min..<?max]) < ?max"
      "?L (?max - 1) \<Longrightarrow> foldl max ?old (filter ?L [?min..<?max]) = ?max - 1"
      using lt by (intro foldl_max_filter_last; linarith)+
    have "get_max_gid (local_nodes ?s2) = ?max - 1"
    proof (cases "?L (?max - 1)")
      case True
      then show ?thesis using m' fl(2) by (simp only: if_False not_True_eq_False)
    next
      case False
      have "get_max_gid (local_nodes (add_remote_node (?max - 1) ?s2')) =
          max (get_max_gid (local_nodes ?s2')) (?max - 1)"
        by (simp add: add_remote_node_def san_add_remote_node_def get_max_gid_def)
      also have "\<dots> = ?max - 1" using m' fl(1) by linarith
      finally show ?thesis using False by (simp only: if_True not_False_eq_True)
    qed
    moreover have "add_node k mid n s = Some (Inr ?H, set_off_grid_spiking ?m ?s2)"
      using hp by (simp only: unfold ap simp_thms if_True if_False option.case prod.case)
    ultimately show ?thesis using that by blast
  next
    case sc
    let ?s2 = "foldl (add_sibling_container k mid ?m) ?s1 [?min..<?max]"
    have "get_max_gid (local_nodes ?s2) = foldl max ?old [?min..<?max]"
      using get_max_gid_foldl[of "add_sibling_container k mid ?m" ?s1, OF max_gid_add_sibling_container]
      by (simp only: old1)
    moreover have "add_node k mid n s = Some (Inr ?H, set_off_grid_spiking ?m ?s2)"
      using sc by (simp only: unfold simp_thms if_True if_False)
    ultimately show ?thesis using that upt_max by simp
  next
    case sn
    let ?s2 = "foldl (add_single_node k mid ?m) ?s1 [?min..<?max]"
    have "get_max_gid (local_nodes ?s2) = foldl max ?old [?min..<?max]"
      using get_max_gid_foldl[of "add_single_node k mid ?m" ?s1, OF max_gid_add_single_node]
      by (simp only: old1)
    moreover have "add_node k mid n s = Some (Inr ?H, set_off_grid_spiking ?m ?s2)"
      using sn by (simp only: unfold simp_thms if_True if_False)
    ultimately show ?thesis using that upt_max by simp
  qed
  show ?thesis using run mx last by (simp del: One_nat_def)
qed

text \<open>
  Claim C1. For a valid model identifier and a count \<open>n \<ge> 1\<close> whose range fits the
  capacity of the registry, \<^verbatim>\<open>add_node\<close> returns, in every branch and on every process, the
  handle of the \<open>n\<close> contiguous GIDs that follow the maximum GID the registry knew before
  the call, so each of them is greater than every GID allocated earlier; after the call
  the maximum GID of the registry is the last GID of the range, also on a process where
  no node of the range is local. The kernel is taken within the ranges of its C types
  and with the locality that \<^verbatim>\<open>next_local_gid_\<close> relies on.
\<close>

theorem add_node_gid_range:
  assumes "mid < get_num_node_models k" and "1 \<le> n" and "n < 2 ^ 63"
    and "get_max_gid (local_nodes s) + 1 + nat n \<le> max_size k"
    and "kernel_in_range k" and "round_robin_locality k"
  shows "\<exists>s'. add_node k mid n s =
            Some (Inr (GIDCollectionPrimitive (get_max_gid (local_nodes s) + 1)
                         (get_max_gid (local_nodes s) + nat n) mid), s')
          \<and> get_max_gid (local_nodes s') = get_max_gid (local_nodes s) + nat n"
  using assms by (rule add_node_result)

text \<open>
  Process 0 of two processes with two threads each creates one neuron: GID 1 belongs to
  process 1, nothing is local, and the maximum GID still becomes 1.
\<close>

theorem add_node_gid_range_witness:
  "\<exists>s'. add_node (example_kernel 0 2 2) 1 1 NodeManager =
            Some (Inr (GIDCollectionPrimitive 1 1 1), s')
        \<and> get_max_gid (local_nodes s') = 1 \<and> entries (local_nodes s') = []"
proof -
  have rr: "round_robin_locality (example_kernel 0 2 2)" by (rule example_round_robin) simp_all
  have kr: "kernel_in_range (example_kernel 0 2 2)" by (rule example_in_range) simp_all
  have old: "get_max_gid (local_nodes NodeManager) = 0" by (simp add: NodeManager_def get_max_gid_def)
  have "\<exists>s'. add_node (example_kernel 0 2 2) 1 1 NodeManager =
            Some (Inr (GIDCollectionPrimitive (get_max_gid (local_nodes NodeManager) + 1)
               (get_max_gid (local_nodes NodeManager) + nat 1) 1), s')
        \<and> get_max_gid (local_nodes s') = get_max_gid (local_nodes NodeManager) + nat 1"
    by (rule add_node_gid_range[OF _ _ _ _ kr rr]) (simp_all add: example_kernel_simps old)
  then obtain s' where s': "add_node (example_kernel 0 2 2) 1 1 NodeManager =
            Some (Inr (GIDCollectionPrimitive 1 1 1), s')" "get_max_gid (local_nodes s') = 1"
    by (auto simp: old)
  have "add_node (example_kernel 0 2 2) 1 1 NodeManager =
     Some (Inr (GIDCollectionPrimitive 1 1 1),
       NodeManager\<lparr>local_nodes := \<lparr>entries = [], max_gid_seen = 1\<rparr>, model_ranges := [(1, 1, 1)]\<rparr>)"
    by (simp add: eval_defs)
  with s' show ?thesis by (auto simp: NodeManager_def)
qed

section \<open>Failures of a call and lookup of nodes\<close>

lemma example_remote_registry:
  "local_nodes example_remote = \<lparr>entries = [], max_gid_seen = 1\<rparr>"
  by (simp add: example_remote_def eval_defs)

lemma example_neuron_registry:
  "local_nodes example_neuron = \<lparr>entries = [(1, 0)], max_gid_seen = 1\<rparr>"
  by (simp add: example_neuron_def eval_defs)

lemma example_neuron_node:
  "thread_siblings (pool example_neuron 0) = []"
  by (simp add: example_neuron_def eval_defs)

lemma example_device_registry:
  "local_nodes example_device = \<lparr>entries = [(1, 0)], max_gid_seen = 1\<rparr>"
  by (simp add: example_device_def eval_defs upt_conv_Cons)

lemma example_device_container:
  "thread_siblings (pool example_device 0) = [1, 2]"
  by (simp add: example_device_def eval_defs upt_conv_Cons)

text \<open>
  Claim C5. \<^verbatim>\<open>add_node\<close> throws \<^verbatim>\<open>UnknownModelID\<close> for a model identifier that is not
  registered, \<^verbatim>\<open>BadProperty\<close> for a count below one, and the kernel exception
  \<^verbatim>\<open>OutOfMemory\<close> when the end of the requested range exceeds the capacity of the
  registry or wraps around; the checks are made in this order, before anything is
  written, so the state of the manager after the failure is the state before the call.
\<close>

theorem add_node_failures:
  "(get_num_node_models k \<le> mid \<longrightarrow>
      add_node k mid n s = Some (Inl (UnknownModelID mid), s)) \<and>
   (mid < get_num_node_models k \<and> n < 1 \<longrightarrow>
      add_node k mid n s = Some (Inl BadProperty, s)) \<and>
   (mid < get_num_node_models k \<and> 1 \<le> n \<and> 0 < get_num_threads k \<and>
    (index_add (index_add (get_max_gid (local_nodes s)) 1) (index_of_long n) > max_size k \<or>
     index_add (index_add (get_max_gid (local_nodes s)) 1) (index_of_long n)
       < index_add (get_max_gid (local_nodes s)) 1) \<longrightarrow>
      add_node k mid n s = Some (Inl (KernelException ''OutOfMemory''), s))"
  by (simp add: add_node_def Let_def)

theorem add_node_failures_witness:
  "add_node (example_kernel 0 1 1) 7 1 NodeManager = Some (Inl (UnknownModelID 7), NodeManager) \<and>
   add_node (example_kernel 0 1 1) 1 0 NodeManager = Some (Inl BadProperty, NodeManager) \<and>
   add_node (example_kernel 0 1 1) 1 1000 NodeManager =
     Some (Inl (KernelException ''OutOfMemory''), NodeManager)"
proof -
  have "index_add (index_add (get_max_gid (local_nodes NodeManager)) 1) (index_of_long 1000) = 1001"
    by (simp add: index_add_def index_of_long_def get_max_gid_def NodeManager_def)
  then show ?thesis
    using add_node_failures[of "example_kernel 0 1 1" 7 1 NodeManager]
      add_node_failures[of "example_kernel 0 1 1" 1 0 NodeManager]
      add_node_failures[of "example_kernel 0 1 1" 1 1000 NodeManager]
    by (simp add: example_kernel_simps)
qed

text \<open>
  Claim C8. \<^verbatim>\<open>get_node(g, t)\<close> returns the proxy of the model manager for \<open>(t, g)\<close> when
  the GID is not in the local registry, and the node itself when the local entry has no
  thread siblings; when the entry is a container with one sibling per thread of the
  process, it throws \<^verbatim>\<open>UnknownNode\<close> for \<open>t < 0\<close> and for \<open>t\<close> at or above the number of
  threads, and returns the sibling of thread \<open>t\<close> otherwise.
\<close>

theorem get_node_cases:
  "(get_node_by_gid (local_nodes s) g = None \<longrightarrow> get_node s g t = Inr (ProxyNode t g)) \<and>
   (\<forall>p. get_node_by_gid (local_nodes s) g = Some p \<and> num_thread_siblings (pool s p) = 0 \<longrightarrow>
      get_node s g t = Inr (PoolNode p)) \<and>
   (\<forall>p. get_node_by_gid (local_nodes s) g = Some p \<and> 0 < get_num_threads k \<and>
        num_thread_siblings (pool s p) = get_num_threads k \<longrightarrow>
      get_node s g t =
        (if t < 0 \<or> int (get_num_threads k) \<le> t then Inl UnknownNode
         else Inr (PoolNode (thread_siblings (pool s p) ! nat t))))"
  by (auto simp: get_node_def get_thread_sibling_def num_thread_siblings_def)

theorem get_node_cases_witness:
  "get_node example_device 5 0 = Inr (ProxyNode 0 5) \<and>
   get_node example_neuron 1 0 = Inr (PoolNode 0) \<and>
   get_node example_device 1 2 = Inl UnknownNode \<and>
   get_node example_device 1 (- 1) = Inl UnknownNode \<and>
   get_node example_device 1 0 = Inr (PoolNode 1) \<and>
   get_node example_device 1 1 = Inr (PoolNode 2)"
  using get_node_cases[of example_device 5 0 "example_kernel 0 1 2"]
    get_node_cases[of example_neuron 1 0 "example_kernel 0 1 2"]
    get_node_cases[of example_device 1 2 "example_kernel 0 1 2"]
    get_node_cases[of example_device 1 "- 1" "example_kernel 0 1 2"]
    get_node_cases[of example_device 1 0 "example_kernel 0 1 2"]
    get_node_cases[of example_device 1 1 "example_kernel 0 1 2"]
  by (simp add: example_device_registry example_neuron_registry example_device_container
      example_neuron_node get_node_by_gid_def num_thread_siblings_def example_kernel_simps)

text \<open>
  Claim C9, at an input where the source departs from it. On process 0 of two processes,
  after one neuron has been created, GID 1 is remote: the lookup gives null, and
  \<^verbatim>\<open>get_thread_siblings\<close> calls \<^verbatim>\<open>num_thread_siblings()\<close> through the null pointer
  instead of throwing \<^verbatim>\<open>NoThreadSiblingsAvailable\<close>.
\<close>

theorem get_thread_siblings_remote_gid:
  "get_node_by_gid (local_nodes example_remote) 1 = None \<and>
   get_thread_siblings example_remote 1 = Inl NullPointerDereference"
  by (simp add: get_thread_siblings_def get_node_by_gid_def example_remote_registry)

text \<open>
  Claim C10. When the local entry of a GID is a plain node, one without thread siblings,
  \<^verbatim>\<open>get_node\<close> returns that node whatever the thread argument is; the argument is only
  looked at for a container.
\<close>

theorem get_node_plain_any_thread:
  assumes "get_node_by_gid (local_nodes s) g = Some p"
    and "num_thread_siblings (pool s p) = 0"
  shows "get_node s g t = Inr (PoolNode p)"
  using assms by (simp add: get_node_def)

theorem get_node_plain_any_thread_witness:
  "get_node example_neuron 1 (- 7) = Inr (PoolNode 0) \<and>
   get_node example_neuron 1 1000 = Inr (PoolNode 0)"
  using get_node_plain_any_thread[of example_neuron 1 0 "- 7"]
    get_node_plain_any_thread[of example_neuron 1 0 1000]
  by (simp add: example_neuron_registry example_neuron_node get_node_by_gid_def
      num_thread_siblings_def)

section \<open>The GIDs the allocation loop visits\<close>

text \<open>
  Claim C2. On a pure recording process (rank at or above the number of simulation
  processes) \<^verbatim>\<open>next_local_gid_\<close> returns the GID plus the number of simulation
  processes. On a simulation process it returns the smallest GID greater than the
  argument that is congruent to the rank modulo the number of simulation processes, so
  the loop that creates nodes with proxies ends, and every value its loop variable takes
  is congruent to the rank, hence a GID that is local to the process. The number of
  processes is a C \<^verbatim>\<open>int\<close> and the GIDs stay within 64 bits.
\<close>

theorem next_local_gid_congruent:
  assumes P31: "get_num_sim_processes k < 2 ^ 31"
    and nowrap: "g + get_num_sim_processes k < 2 ^ 64"
  shows "(get_num_sim_processes k \<le> get_rank k \<longrightarrow>
            next_local_gid k g = g + get_num_sim_processes k) \<and>
         (get_rank k < get_num_sim_processes k \<longrightarrow>
            g < next_local_gid k g \<and>
            next_local_gid k g mod get_num_sim_processes k = get_rank k \<and>
            (\<forall>h. g < h \<and> h mod get_num_sim_processes k = get_rank k \<longrightarrow> next_local_gid k g \<le> h)) \<and>
         (get_rank k < get_num_sim_processes k \<and> round_robin_locality k \<and>
          min_gid < max_gid \<and> max_gid + get_num_sim_processes k \<le> 2 ^ 64 \<longrightarrow>
            (\<exists>s' visited. add_proxied_nodes k mid m min_gid max_gid s = Some (s', visited) \<and>
               (\<forall>v\<in>set visited. v mod get_num_sim_processes k = get_rank k \<and>
                                 is_local_vp k (suggest_vp k v))))"
proof -
  let ?P = "get_num_sim_processes k"
  have rec: "next_local_gid k g = g + ?P" if "?P \<le> get_rank k"
    using that nowrap by (rule next_local_gid_rec)
  have step: "g < next_local_gid k g \<and> next_local_gid k g mod ?P = get_rank k \<and>
        (\<forall>h. g < h \<and> h mod ?P = get_rank k \<longrightarrow> next_local_gid k g \<le> h)"
    if sim: "get_rank k < ?P"
  proof (cases "g mod ?P = get_rank k")
    case True
    then show ?thesis using next_local_gid_sim[OF sim P31 nowrap] sim step_full[OF sim True] by auto
  next
    case False
    define d where "d = (?P + get_rank k - g mod ?P) mod ?P"
    note su = step_up[OF sim False d_def]
    have "next_local_gid k g = g + d"
      using next_local_gid_sim[OF sim P31 nowrap] False by (simp add: d_def)
    then show ?thesis using su by auto
  qed
  have loop: "\<exists>s' visited. add_proxied_nodes k mid m min_gid max_gid s = Some (s', visited) \<and>
               (\<forall>v\<in>set visited. v mod ?P = get_rank k \<and> is_local_vp k (suggest_vp k v))"
    if a: "get_rank k < ?P \<and> round_robin_locality k \<and> min_gid < max_gid \<and> max_gid + ?P \<le> 2 ^ 64"
  proof -
  from a have P0: "0 < ?P" by linarith
  from a have H: "is_local_vp k (suggest_vp k x) \<longleftrightarrow> x mod ?P = get_rank k" for x
    by (simp add: round_robin_locality_def)
  from a add_proxied_nodes_closed[of k max_gid min_gid mid m s, OF _ P0 P31]
  obtain s' vis where "add_proxied_nodes k mid m min_gid max_gid s = Some (s', vis)"
    and "\<forall>v\<in>set vis. v mod ?P = get_rank k"
    by blast
  then show ?thesis
    using H by blast
  qed
  show ?thesis using rec step loop by blast
qed

text \<open>
  Process 1 of three steps from GID 5 to GID 7; a recording process behind two simulation
  processes steps from 5 to 7 as well; the loop of process 1 of three over the GIDs 1 to 8
  takes the values 1, 4 and 7.
\<close>

theorem next_local_gid_congruent_witness:
  "next_local_gid (example_kernel 1 3 1) 5 = 7 \<and>
   next_local_gid (example_kernel 3 2 1) 5 = 7 \<and>
   (\<exists>s'. add_proxied_nodes (example_kernel 1 3 1) 1 (example_model 1) 1 9 NodeManager
            = Some (s', [1, 4, 7]))"
proof -
  have rr: "round_robin_locality (example_kernel 1 3 1)" by (rule example_round_robin) simp_all
  have e: "\<exists>s'. add_proxied_nodes (example_kernel 1 3 1) 1 (example_model 1) 1 9 NodeManager
            = Some (s', [1, 4, 7])"
    by (simp add: eval_defs)
  have a: "next_local_gid (example_kernel 1 3 1) 5 = 7"
    by (simp add: eval_defs)
  from next_local_gid_congruent[of "example_kernel 1 3 1" 5 1 9 1 "example_model 1" NodeManager]
    next_local_gid_congruent[of "example_kernel 3 2 1" 5 1 9 1 "example_model 1" NodeManager]
    rr a e
  show ?thesis by (simp add: example_kernel_simps)
qed

section \<open>Replicated nodes\<close>

lemma foldl_add_replica:
  assumes "c < next_addr s"
  shows "foldl (add_replica k mid m g c) s [0..<j] =
     (s\<lparr>pool := (\<lambda>a. if a = c
                     then (pool s c)\<lparr>thread_siblings :=
                            thread_siblings (pool s c) @ [next_addr s..<next_addr s + j]\<rparr>
                     else if next_addr s \<le> a \<and> a < next_addr s + j
                     then new_replica k mid m g (a - next_addr s)
                     else pool s a),
        next_addr := next_addr s + j\<rparr>)" (is "_ = ?R j")
proof (induction j)
  case 0
  show ?case by (rule node_manager.equality) (auto simp: fun_eq_iff)
next
  case (Suc j)
  have "foldl (add_replica k mid m g c) s [0..<Suc j] =
      add_replica k mid m g c (foldl (add_replica k mid m g c) s [0..<j]) j"
    by simp
  also have "\<dots> = add_replica k mid m g c (?R j) j" by (simp only: Suc)
  also have "\<dots> = ?R (Suc j)"
    using assms
    by (simp add: add_replica_def allocate_def update_node_def new_replica_def fun_eq_iff)
  finally show ?case .
qed

lemma add_sibling_container_eq:
  "add_sibling_container k mid m s g =
     s\<lparr>local_nodes := san_add_local_node g (next_addr s) (local_nodes s),
        pool := (\<lambda>a. if a = next_addr s then new_container k g (next_addr s)
                     else if next_addr s < a \<and> a \<le> next_addr s + get_num_threads k
                     then new_replica k mid m g (a - Suc (next_addr s))
                     else pool s a),
        next_addr := Suc (next_addr s) + get_num_threads k\<rparr>"
  by (simp add: add_sibling_container_def allocate_def update_node_def add_local_node_def
      foldl_add_replica new_container_def fun_eq_iff)


lemma new_container_fields:
  "gid (new_container k g p) = g"
  "model_id (new_container k g p) = - 1"
  "thread_siblings (new_container k g p) = [Suc p..<Suc p + get_num_threads k]"
  "num_thread_siblings (new_container k g p) = get_num_threads k"
  by (simp_all add: new_container_def num_thread_siblings_def)

lemma new_replica_fields:
  "gid (new_replica k mid m g t) = g"
  "model_id (new_replica k mid m g t) = int mid"
  "thread (new_replica k mid m g t) = int t"
  "vp (new_replica k mid m g t) = thread_to_vp k (int t)"
  "thread_siblings (new_replica k mid m g t) = []"
  "num_thread_siblings (new_replica k mid m g t) = 0"
  by (simp_all add: new_replica_def num_thread_siblings_def)

text \<open>What the loop over the GIDs of the replicated branch has built after \<open>j\<close> rounds.\<close>

lemma foldl_add_sibling_container:
  "\<exists>cs. length cs = j \<and> distinct cs \<and>
      entries (local_nodes (foldl (add_sibling_container k mid m) s [g0..<g0 + j])) =
        entries (local_nodes s) @ zip [g0..<g0 + j] cs \<and>
      next_addr s \<le> next_addr (foldl (add_sibling_container k mid m) s [g0..<g0 + j]) \<and>
      (\<forall>c\<in>set cs. next_addr s \<le> c \<and>
          c + get_num_threads k < next_addr (foldl (add_sibling_container k mid m) s [g0..<g0 + j])) \<and>
      (\<forall>i<j. pool (foldl (add_sibling_container k mid m) s [g0..<g0 + j]) (cs ! i)
                 = new_container k (g0 + i) (cs ! i) \<and>
             (\<forall>t<get_num_threads k.
                pool (foldl (add_sibling_container k mid m) s [g0..<g0 + j]) (Suc (cs ! i) + t)
                  = new_replica k mid m (g0 + i) t))"
proof (induction j)
  case 0
  show ?case by simp
next
  case (Suc j)
  let ?T = "get_num_threads k"
  define s' where "s' = foldl (add_sibling_container k mid m) s [g0..<g0 + j]"
  define s'' where "s'' = foldl (add_sibling_container k mid m) s [g0..<g0 + Suc j]"
  from Suc obtain cs where cs: "length cs = j" "distinct cs"
    "entries (local_nodes s') = entries (local_nodes s) @ zip [g0..<g0 + j] cs"
    "next_addr s \<le> next_addr s'"
    "\<And>c. c \<in> set cs \<Longrightarrow> next_addr s \<le> c \<and> c + ?T < next_addr s'"
    "\<And>i. i < j \<Longrightarrow> pool s' (cs ! i) = new_container k (g0 + i) (cs ! i) \<and>
             (\<forall>t<?T. pool s' (Suc (cs ! i) + t) = new_replica k mid m (g0 + i) t)"
    unfolding s'_def by blast
  let ?c = "next_addr s'"
  have step: "s'' = add_sibling_container k mid m s' (g0 + j)" by (simp add: s'_def s''_def)
  have eq: "s'' =
     s'\<lparr>local_nodes := san_add_local_node (g0 + j) ?c (local_nodes s'),
         pool := (\<lambda>a. if a = ?c then new_container k (g0 + j) ?c
                      else if ?c < a \<and> a \<le> ?c + ?T
                      then new_replica k mid m (g0 + j) (a - Suc ?c)
                      else pool s' a),
         next_addr := Suc ?c + ?T\<rparr>"
    unfolding step by (rule add_sibling_container_eq)
  have nxt: "next_addr s'' = Suc ?c + ?T" by (subst eq) simp
  have ent: "entries (local_nodes s'') = entries (local_nodes s') @ [(g0 + j, ?c)]"
    by (subst eq) (simp add: san_add_local_node_def)
  have pl: "pool s'' a = (if a = ?c then new_container k (g0 + j) ?c
                      else if ?c < a \<and> a \<le> ?c + ?T
                      then new_replica k mid m (g0 + j) (a - Suc ?c)
                      else pool s' a)" for a
    by (subst eq) simp
  have fresh: "?c \<notin> set cs" using cs(5) by fastforce
  let ?cs = "cs @ [?c]"
  have 1: "length ?cs = Suc j" using cs(1) by simp
  have 2: "distinct ?cs" using cs(2) fresh by simp
  have 3: "entries (local_nodes s'') = entries (local_nodes s) @ zip [g0..<g0 + Suc j] ?cs"
    using cs(1,3) ent by simp
  have 4: "next_addr s \<le> next_addr s''" using cs(4) nxt by simp
  have 5: "next_addr s \<le> c \<and> c + ?T < next_addr s''" if "c \<in> set ?cs" for c
    using that cs(4) cs(5)[of c] nxt by auto
  have 6: "pool s'' (?cs ! i) = new_container k (g0 + i) (?cs ! i) \<and>
      (\<forall>t<?T. pool s'' (Suc (?cs ! i) + t) = new_replica k mid m (g0 + i) t)" if "i < Suc j" for i
  proof (cases "i < j")
    case True
    then have mem: "cs ! i \<in> set cs" using cs(1) by simp
    have lt: "cs ! i + ?T < ?c" using cs(5)[OF mem] by simp
    have a: "pool s'' (cs ! i) = pool s' (cs ! i)" using lt by (simp add: pl)
    have b: "pool s'' (Suc (cs ! i) + t) = pool s' (Suc (cs ! i) + t)" if "t < ?T" for t
      using lt that by (simp add: pl)
    show ?thesis using True cs(1) cs(6)[OF True] a b by (simp add: nth_append)
  next
    case False
    then have i: "i = j" using that by simp
    show ?thesis using cs(1) by (simp add: i nth_append pl)
  qed
  show ?case
    unfolding s''_def[symmetric]
    apply (rule exI[of _ ?cs])
    using 1 2 3 4 5 6 by blast
qed


lemma pool_set_off_grid_spiking [simp]: "pool (set_off_grid_spiking m s) = pool s"
  by (simp add: set_off_grid_spiking_def)

lemma get_node_by_gid_new:
  assumes rb: "registry_bounded s"
    and ent: "entries (local_nodes s') = entries (local_nodes s) @ zip [g0..<g0 + j] cs"
    and len: "length cs = j" and g0: "get_max_gid (local_nodes s) < g0" and i: "i < j"
  shows "get_node_by_gid (local_nodes s') (g0 + i) = Some (cs ! i)"
proof -
  have "g0 + i \<notin> fst ` set (entries (local_nodes s))"
    using rb g0 by (fastforce simp: registry_bounded_def list_all_iff)
  then have old: "map_of (entries (local_nodes s)) (g0 + i) = None"
    by (simp add: map_of_eq_None_iff)
  have "map_of (zip [g0..<g0 + j] cs) ([g0..<g0 + j] ! i) = Some (cs ! i)"
    using len i by (intro map_of_zip_nth) simp_all
  then have new: "map_of (zip [g0..<g0 + j] cs) (g0 + i) = Some (cs ! i)" using i by simp
  show ?thesis
    by (simp add: get_node_by_gid_def ent map_add_def old new)
qed

text \<open>
  Claim C6. For a model without proxies that is replicated per thread (it is not a global
  receiver served by recording processes, and not limited to one node per process) and
  \<open>n \<ge> 1\<close>, \<^verbatim>\<open>add_node\<close> registers exactly \<open>n\<close> new entries, one container for each GID of
  the range, in the order of the GIDs. Each container carries its GID and the model id -1
  and holds as many replicas as the process has threads, at pairwise different addresses;
  \<^verbatim>\<open>get_node\<close> with the GID and a thread below that number returns the replica of that
  thread, a plain node of the requested model with the same GID that is owned by the
  thread.
\<close>

theorem add_node_sibling_containers:
  assumes valid: "mid < get_num_node_models k" and n1: "1 \<le> n" and n63: "n < 2 ^ 63"
    and fits: "get_max_gid (local_nodes s) + 1 + nat n \<le> max_size k"
    and kr: "kernel_in_range k" and rb: "registry_bounded s"
    and ngr: "\<not> (potential_global_receiver (get_model k mid) \<and> 0 < get_num_rec_processes k)"
    and np: "\<not> has_proxies (get_model k mid)"
    and rep: "\<not> one_node_per_process (get_model k mid)"
  shows "\<exists>s' cs.
     add_node k mid n s =
       Some (Inr (GIDCollectionPrimitive (get_max_gid (local_nodes s) + 1)
                    (get_max_gid (local_nodes s) + nat n) mid), s') \<and>
     length cs = nat n \<and> distinct cs \<and>
     entries (local_nodes s') =
       entries (local_nodes s)
         @ zip [get_max_gid (local_nodes s) + 1..<get_max_gid (local_nodes s) + 1 + nat n] cs \<and>
     (\<forall>i<nat n.
        get_node_by_gid (local_nodes s') (get_max_gid (local_nodes s) + 1 + i) = Some (cs ! i) \<and>
        gid (pool s' (cs ! i)) = get_max_gid (local_nodes s) + 1 + i \<and>
        model_id (pool s' (cs ! i)) = - 1 \<and>
        num_thread_siblings (pool s' (cs ! i)) = get_num_threads k \<and>
        distinct (thread_siblings (pool s' (cs ! i))) \<and>
        (\<forall>t<get_num_threads k.
           get_node s' (get_max_gid (local_nodes s) + 1 + i) (int t)
             = Inr (PoolNode (thread_siblings (pool s' (cs ! i)) ! t)) \<and>
           gid (pool s' (thread_siblings (pool s' (cs ! i)) ! t))
             = get_max_gid (local_nodes s) + 1 + i \<and>
           model_id (pool s' (thread_siblings (pool s' (cs ! i)) ! t)) = int mid \<and>
           thread (pool s' (thread_siblings (pool s' (cs ! i)) ! t)) = int t \<and>
           num_thread_siblings (pool s' (thread_siblings (pool s' (cs ! i)) ! t)) = 0))"
proof -
  let ?old = "get_max_gid (local_nodes s)"
  let ?T = "get_num_threads k"
  let ?m = "get_model k mid"
  let ?s1 = "s\<lparr>model_ranges := model_ranges s @ [(mid, ?old + 1, ?old + 1 + nat n - 1)]\<rparr>"
  define s2 where "s2 = foldl (add_sibling_container k mid ?m) ?s1 [?old + 1..<?old + 1 + nat n]"
  define s' where "s' = set_off_grid_spiking ?m s2"
  have T: "0 < ?T" using kr by (simp add: kernel_in_range_def)
  have "add_node k mid n s = add_node_branches k mid n s"
    using valid n1 n63 fits kr by (rule add_node_unfold)
  also have "\<dots> = Some (Inr (GIDCollectionPrimitive (?old + 1) (?old + 1 + nat n - 1) mid), s')"
    unfolding add_node_branches_def Let_def s'_def s2_def
    using ngr np rep by (simp only: simp_thms if_True if_False)
  finally have run: "add_node k mid n s =
      Some (Inr (GIDCollectionPrimitive (?old + 1) (?old + nat n) mid), s')"
    by simp
  from foldl_add_sibling_container[of "nat n" k mid ?m ?s1 "?old + 1"]
  obtain cs where cs: "length cs = nat n" "distinct cs"
    "entries (local_nodes s2) = entries (local_nodes s) @ zip [?old + 1..<?old + 1 + nat n] cs"
    "\<And>i. i < nat n \<Longrightarrow> pool s2 (cs ! i) = new_container k (?old + 1 + i) (cs ! i) \<and>
             (\<forall>t<?T. pool s2 (Suc (cs ! i) + t) = new_replica k mid ?m (?old + 1 + i) t)"
    unfolding s2_def by auto
  have ent: "entries (local_nodes s') = entries (local_nodes s) @ zip [?old + 1..<?old + 1 + nat n] cs"
    using cs(3) by (simp add: s'_def)
  have pl: "pool s' = pool s2" by (simp add: s'_def)
  have each: "get_node_by_gid (local_nodes s') (?old + 1 + i) = Some (cs ! i) \<and>
        gid (pool s' (cs ! i)) = ?old + 1 + i \<and>
        model_id (pool s' (cs ! i)) = - 1 \<and>
        num_thread_siblings (pool s' (cs ! i)) = ?T \<and>
        distinct (thread_siblings (pool s' (cs ! i))) \<and>
        (\<forall>t<?T.
           get_node s' (?old + 1 + i) (int t) = Inr (PoolNode (thread_siblings (pool s' (cs ! i)) ! t)) \<and>
           gid (pool s' (thread_siblings (pool s' (cs ! i)) ! t)) = ?old + 1 + i \<and>
           model_id (pool s' (thread_siblings (pool s' (cs ! i)) ! t)) = int mid \<and>
           thread (pool s' (thread_siblings (pool s' (cs ! i)) ! t)) = int t \<and>
           num_thread_siblings (pool s' (thread_siblings (pool s' (cs ! i)) ! t)) = 0)"
    if i: "i < nat n" for i
  proof -
    have look: "get_node_by_gid (local_nodes s') (?old + 1 + i) = Some (cs ! i)"
      using rb ent cs(1) _ i by (rule get_node_by_gid_new) simp
    have c: "pool s' (cs ! i) = new_container k (?old + 1 + i) (cs ! i)"
      using cs(4)[OF i] pl by simp
    have r: "pool s' (Suc (cs ! i) + t) = new_replica k mid ?m (?old + 1 + i) t" if "t < ?T" for t
      using cs(4)[OF i] pl that by simp
    have sib: "thread_siblings (pool s' (cs ! i)) ! t = Suc (cs ! i) + t" if "t < ?T" for t
      using that by (simp add: c new_container_fields del: upt_Suc)
    have gn: "get_node s' (?old + 1 + i) (int t) = Inr (PoolNode (Suc (cs ! i) + t))" if "t < ?T" for t
      using that T look
      by (simp add: get_node_def c new_container_fields get_thread_sibling_def del: upt_Suc)
    have d: "distinct (thread_siblings (pool s' (cs ! i)))"
      by (simp add: c new_container_fields del: upt_Suc)
    have f: "gid (pool s' (cs ! i)) = ?old + 1 + i" "model_id (pool s' (cs ! i)) = - 1"
      "num_thread_siblings (pool s' (cs ! i)) = ?T"
      by (simp_all add: c new_container_fields del: upt_Suc)
    show ?thesis
      using look sib gn r d f
      by (simp add: new_replica_fields del: upt_Suc)
  qed
  show ?thesis
    apply (rule exI[of _ s'])
    apply (rule exI[of _ cs])
    using run cs(1,2) ent each by blast
qed

text \<open>
  One replicated device on a single process with two threads: one container at address
  0 with the replicas at the addresses 1 and 2.
\<close>

theorem add_node_sibling_containers_witness:
  "\<exists>s' cs.
     add_node (example_kernel 0 1 2) 2 1 NodeManager = Some (Inr (GIDCollectionPrimitive 1 1 2), s') \<and>
     length cs = 1 \<and> distinct cs \<and> entries (local_nodes s') = zip [1] cs \<and>
     get_node_by_gid (local_nodes s') 1 = Some (cs ! 0) \<and>
     gid (pool s' (cs ! 0)) = 1 \<and> model_id (pool s' (cs ! 0)) = - 1 \<and>
     num_thread_siblings (pool s' (cs ! 0)) = 2 \<and>
     distinct (thread_siblings (pool s' (cs ! 0))) \<and>
     (\<forall>t<2. get_node s' 1 (int t) = Inr (PoolNode (thread_siblings (pool s' (cs ! 0)) ! t)) \<and>
            gid (pool s' (thread_siblings (pool s' (cs ! 0)) ! t)) = 1 \<and>
            model_id (pool s' (thread_siblings (pool s' (cs ! 0)) ! t)) = 2 \<and>
            thread (pool s' (thread_siblings (pool s' (cs ! 0)) ! t)) = int t \<and>
            num_thread_siblings (pool s' (thread_siblings (pool s' (cs ! 0)) ! t)) = 0)"
proof -
  have kr: "kernel_in_range (example_kernel 0 1 2)" by (rule example_in_range) simp_all
  have rb: "registry_bounded NodeManager" by (simp add: registry_bounded_def NodeManager_def)
  have old: "get_max_gid (local_nodes NodeManager) = 0"
    by (simp add: NodeManager_def get_max_gid_def)
  have m: "\<not> (potential_global_receiver (get_model (example_kernel 0 1 2) 2) \<and>
               0 < get_num_rec_processes (example_kernel 0 1 2))"
    "\<not> has_proxies (get_model (example_kernel 0 1 2) 2)"
    "\<not> one_node_per_process (get_model (example_kernel 0 1 2) 2)"
    by (simp_all add: example_kernel_simps example_model_def)
  have v: "2 < get_num_node_models (example_kernel 0 1 2)" "(1::int) \<le> 1" "(1::int) < 2 ^ 63"
    "get_max_gid (local_nodes NodeManager) + 1 + nat 1 \<le> max_size (example_kernel 0 1 2)"
    by (simp_all add: example_kernel_simps old)
  have ent0: "entries (local_nodes NodeManager) = []" by (simp add: NodeManager_def)
  show ?thesis
    using add_node_sibling_containers[OF v kr rb m]
    by (simp add: old ent0 example_kernel_simps)
qed

section \<open>What a call adds to the store and the registry\<close>

lemma grown_refl: "grown Q s s"
  by (auto simp: grown_def)

lemma grown_trans:
  assumes "grown Q s s'" "grown Q s' s''"
  shows "grown Q s s''"
proof -
  from assms(1) obtain new where 1: "next_addr s \<le> next_addr s'"
    "\<And>a. a < next_addr s \<Longrightarrow> pool s' a = pool s a"
    "\<And>a. next_addr s \<le> a \<Longrightarrow> a < next_addr s' \<Longrightarrow> Q (pool s' a)"
    "entries (local_nodes s') = entries (local_nodes s) @ new"
    "\<And>e. e \<in> set new \<Longrightarrow> next_addr s \<le> snd e \<and> snd e < next_addr s'"
    "nodes_vec s' = nodes_vec s" "wfr_nodes_vec s' = wfr_nodes_vec s"
    "nodes_vec_network_size s' = nodes_vec_network_size s"
    unfolding grown_def by blast
  from assms(2) obtain new' where 2: "next_addr s' \<le> next_addr s''"
    "\<And>a. a < next_addr s' \<Longrightarrow> pool s'' a = pool s' a"
    "\<And>a. next_addr s' \<le> a \<Longrightarrow> a < next_addr s'' \<Longrightarrow> Q (pool s'' a)"
    "entries (local_nodes s'') = entries (local_nodes s') @ new'"
    "\<And>e. e \<in> set new' \<Longrightarrow> next_addr s' \<le> snd e \<and> snd e < next_addr s''"
    "nodes_vec s'' = nodes_vec s'" "wfr_nodes_vec s'' = wfr_nodes_vec s'"
    "nodes_vec_network_size s'' = nodes_vec_network_size s'"
    unfolding grown_def by blast
  have a: "next_addr s \<le> next_addr s''" using 1(1) 2(1) by simp
  have b: "pool s'' a = pool s a" if "a < next_addr s" for a
    using that 1(1) 1(2)[of a] 2(2)[of a] by simp
  have c: "Q (pool s'' a)" if "next_addr s \<le> a" "a < next_addr s''" for a
  proof (cases "a < next_addr s'")
    case True
    then show ?thesis using 1(3)[of a] 2(2)[of a] that by simp
  next
    case False
    then show ?thesis using 2(3)[of a] that by simp
  qed
  have d: "entries (local_nodes s'') = entries (local_nodes s) @ (new @ new')"
    using 1(4) 2(4) by simp
  have e: "next_addr s \<le> snd e \<and> snd e < next_addr s''" if "e \<in> set (new @ new')" for e
    using that 1(5)[of e] 2(5)[of e] 1(1) 2(1) by auto
  show ?thesis
    unfolding grown_def using a b c d e 1(6-8) 2(6-8) by (metis (no_types, lifting))
qed

lemma grown_foldl:
  assumes "\<And>s g. g \<in> set gs \<Longrightarrow> grown Q s (f s g)"
  shows "grown Q s (foldl f s gs)"
  using assms
proof (induction gs arbitrary: s)
  case Nil
  show ?case by (simp add: grown_refl)
next
  case (Cons g gs)
  have "grown Q s (f s g)" using Cons.prems by simp
  moreover have "grown Q (f s g) (foldl f (f s g) gs)" using Cons.prems by (intro Cons.IH) simp
  ultimately show ?case using grown_trans by simp
qed

lemma grown_weaken: "grown Q s s' \<Longrightarrow> (\<And>n. Q n \<Longrightarrow> Q' n) \<Longrightarrow> grown Q' s s'"
  unfolding grown_def by blast

lemma grown_same:
  assumes "next_addr s' = next_addr s" "pool s' = pool s"
    "entries (local_nodes s') = entries (local_nodes s)"
    "nodes_vec s' = nodes_vec s" "wfr_nodes_vec s' = wfr_nodes_vec s"
    "nodes_vec_network_size s' = nodes_vec_network_size s"
  shows "grown Q s s'"
  using assms by (auto simp: grown_def)

lemma grown_add_remote_node: "grown Q s (add_remote_node g s)"
  by (rule grown_same) (simp_all add: add_remote_node_def san_add_remote_node_def)

lemma grown_set_off_grid_spiking: "grown Q s (set_off_grid_spiking m s)"
  by (rule grown_same) (simp_all add: set_off_grid_spiking_def)

lemma grown_model_ranges: "grown Q s (s\<lparr>model_ranges := r\<rparr>)"
  by (rule grown_same) simp_all

lemma grown_add_proxied_node:
  "grown (\<lambda>n. placed k n \<and> thread_siblings n = [] \<and> gid n = g) s (add_proxied_node k mid m g s)"
  by (auto simp: grown_def add_proxied_node_def allocate_def update_node_def add_local_node_def
      san_add_local_node_def placed_def Let_def)

lemma grown_add_single_node:
  "grown (\<lambda>n. thread_siblings n = [] \<and> thread n = 0 \<and> vp n = thread_to_vp k 0 \<and> gid n = g) s
     (add_single_node k mid m s g)"
  by (auto simp: grown_def add_single_node_def allocate_def update_node_def add_local_node_def
      san_add_local_node_def Let_def)

lemma grown_add_global_receiver:
  "grown (\<lambda>n. thread_siblings n = [] \<and> is_local_vp k (vp n) \<and> thread n = vp_to_thread k (vp n)) s
     (add_global_receiver k mid m s g)"
  by (auto simp: grown_def add_global_receiver_def allocate_def update_node_def add_local_node_def
      san_add_local_node_def add_remote_node_def san_add_remote_node_def increment_n_gsd_def
      get_n_gsd_def Let_def)



text \<open>What a successful call is made of, branch by branch.\<close>

lemma add_node_cases:
  assumes valid: "mid < get_num_node_models k" and n1: "1 \<le> n" and n63: "n < 2 ^ 63"
    and fits: "get_max_gid (local_nodes s) + 1 + nat n \<le> max_size k"
    and kr: "kernel_in_range k" and rr: "round_robin_locality k"
  defines "m \<equiv> get_model k mid"
    and "lo \<equiv> get_max_gid (local_nodes s) + 1"
    and "hi \<equiv> get_max_gid (local_nodes s) + 1 + nat n"
  defines "s1 \<equiv> s\<lparr>model_ranges := model_ranges s @ [(mid, lo, hi - 1)]\<rparr>"
  obtains (global_receiver) "potential_global_receiver m \<and> get_num_rec_processes k > 0"
      "add_node k mid n s = Some (Inr (GIDCollectionPrimitive lo (hi - 1) mid),
         set_off_grid_spiking m (foldl (add_global_receiver k mid m) s1 [lo..<hi]))"
    | (proxies) "\<not> (potential_global_receiver m \<and> get_num_rec_processes k > 0)" "has_proxies m"
      "add_node k mid n s = Some (Inr (GIDCollectionPrimitive lo (hi - 1) mid),
         set_off_grid_spiking m
           ((\<lambda>s'. if \<not> is_local_vp k (suggest_vp k (hi - 1)) then add_remote_node (hi - 1) s' else s')
              (foldl (\<lambda>s g. add_proxied_node k mid m g s) s1
                 (filter (\<lambda>x. is_local_vp k (suggest_vp k x)) [lo..<hi]))))"
    | (replicated) "\<not> (potential_global_receiver m \<and> get_num_rec_processes k > 0)"
      "\<not> has_proxies m" "\<not> one_node_per_process m"
      "add_node k mid n s = Some (Inr (GIDCollectionPrimitive lo (hi - 1) mid),
         set_off_grid_spiking m (foldl (add_sibling_container k mid m) s1 [lo..<hi]))"
    | (single) "\<not> (potential_global_receiver m \<and> get_num_rec_processes k > 0)"
      "\<not> has_proxies m" "one_node_per_process m"
      "add_node k mid n s = Some (Inr (GIDCollectionPrimitive lo (hi - 1) mid),
         set_off_grid_spiking m (foldl (add_single_node k mid m) s1 [lo..<hi]))"
proof -
  let ?P = "get_num_sim_processes k"
  have P0: "0 < ?P" and P31: "?P < 2 ^ 31" and cap: "max_size k + ?P \<le> 2 ^ 64"
    using kr by (simp_all add: kernel_in_range_def)
  have lt: "lo < hi" using n1 by (simp add: lo_def hi_def)
  have nowrap: "hi + ?P \<le> 2 ^ 64" using fits cap by (simp add: hi_def)
  note unfold = add_node_unfold[OF valid n1 n63 fits kr,
      unfolded add_node_branches_def Let_def, folded m_def lo_def hi_def, folded s1_def]
  consider (gr) "potential_global_receiver m \<and> get_num_rec_processes k > 0"
    | (hp) "\<not> (potential_global_receiver m \<and> get_num_rec_processes k > 0)" "has_proxies m"
    | (sc) "\<not> (potential_global_receiver m \<and> get_num_rec_processes k > 0)" "\<not> has_proxies m"
        "\<not> one_node_per_process m"
    | (sn) "\<not> (potential_global_receiver m \<and> get_num_rec_processes k > 0)" "\<not> has_proxies m"
        "one_node_per_process m"
    by blast
  then show thesis
  proof cases
    case gr
    then show ?thesis using global_receiver by (simp only: unfold simp_thms if_True)
  next
    case hp
    obtain vis where ap: "add_proxied_nodes k mid m lo hi s1 =
      Some ((\<lambda>s'. if \<not> is_local_vp k (suggest_vp k (hi - 1)) then add_remote_node (hi - 1) s' else s')
              (foldl (\<lambda>s g. add_proxied_node k mid m g s) s1
                 (filter (\<lambda>x. is_local_vp k (suggest_vp k x)) [lo..<hi])), vis)"
      using add_proxied_nodes_closed[OF rr P0 P31 nowrap lt, of mid m s1] by auto
    show ?thesis
      using hp by (intro proxies) (simp_all only: unfold ap simp_thms if_True if_False option.case prod.case)
  next
    case sc
    then show ?thesis by (intro replicated) (simp_all only: unfold simp_thms if_True if_False)
  next
    case sn
    then show ?thesis by (intro single) (simp_all only: unfold simp_thms if_True if_False)
  qed
qed


lemma grown_local_proxied_nodes:
  "grown (\<lambda>n. placed k n \<and> thread_siblings n = [] \<and> is_local_vp k (suggest_vp k (gid n))) s
     (foldl (\<lambda>s g. add_proxied_node k mid m g s) s
        (filter (\<lambda>x. is_local_vp k (suggest_vp k x)) gs))"
proof (rule grown_foldl)
  fix s g assume "g \<in> set (filter (\<lambda>x. is_local_vp k (suggest_vp k x)) gs)"
  then have "is_local_vp k (suggest_vp k g)" by simp
  then show "grown (\<lambda>n. placed k n \<and> thread_siblings n = [] \<and> is_local_vp k (suggest_vp k (gid n))) s
     (add_proxied_node k mid m g s)"
    by (intro grown_weaken[OF grown_add_proxied_node]) simp
qed


text \<open>Every node that the branch for models with proxies creates is placed by the topology.\<close>

lemma add_node_grown_placed:
  assumes valid: "mid < get_num_node_models k" and n1: "1 \<le> n" and n63: "n < 2 ^ 63"
    and fits: "get_max_gid (local_nodes s) + 1 + nat n \<le> max_size k"
    and kr: "kernel_in_range k" and rr: "round_robin_locality k"
    and ngr: "\<not> (potential_global_receiver (get_model k mid) \<and> get_num_rec_processes k > 0)"
    and hp: "has_proxies (get_model k mid)"
  shows "\<exists>h s'. add_node k mid n s = Some (Inr h, s') \<and> grown (placed k) s s'"
proof -
  let ?m = "get_model k mid"
  from valid n1 n63 fits kr rr show ?thesis
  proof (cases rule: add_node_cases)
    case proxies
    have "grown (placed k) (s\<lparr>model_ranges := model_ranges s @
             [(mid, get_max_gid (local_nodes s) + 1, get_max_gid (local_nodes s) + 1 + nat n - 1)]\<rparr>)
           (foldl (\<lambda>s g. add_proxied_node k mid ?m g s)
             (s\<lparr>model_ranges := model_ranges s @
               [(mid, get_max_gid (local_nodes s) + 1, get_max_gid (local_nodes s) + 1 + nat n - 1)]\<rparr>)
             (filter (\<lambda>x. is_local_vp k (suggest_vp k x))
                [get_max_gid (local_nodes s) + 1..<get_max_gid (local_nodes s) + 1 + nat n]))"
      by (intro grown_weaken[OF grown_local_proxied_nodes]) simp
    then have "grown (placed k) s
       ((\<lambda>s'. if \<not> is_local_vp k (suggest_vp k (get_max_gid (local_nodes s) + 1 + nat n - 1))
              then add_remote_node (get_max_gid (local_nodes s) + 1 + nat n - 1) s' else s')
           (foldl (\<lambda>s g. add_proxied_node k mid ?m g s)
             (s\<lparr>model_ranges := model_ranges s @
               [(mid, get_max_gid (local_nodes s) + 1, get_max_gid (local_nodes s) + 1 + nat n - 1)]\<rparr>)
             (filter (\<lambda>x. is_local_vp k (suggest_vp k x))
                [get_max_gid (local_nodes s) + 1..<get_max_gid (local_nodes s) + 1 + nat n])))"
      using grown_trans[OF grown_model_ranges] grown_trans[OF _ grown_add_remote_node]
      by (cases "is_local_vp k (suggest_vp k (get_max_gid (local_nodes s) + 1 + nat n - 1))")
         (simp_all only: if_True if_False not_True_eq_False not_False_eq_True)
    then show ?thesis
      using proxies(3) grown_trans[OF _ grown_set_off_grid_spiking] by blast
  qed (use ngr hp in simp_all)
qed

section \<open>The thread-local view\<close>
















lemmas view_defs =
  ensure_valid_thread_local_ids_def rebuild_thread_def register_thread_local_def size_nm_def
  san_size_def get_node_by_index_def state_of_def example_view0_def example_view1_def
  example_view2_def index_of_thread_def









section \<open>The preparation pass\<close>

lemma prepare_thread_ok:
  assumes "distinct ps" "\<forall>p\<in>set ps. snd (prepare_node k (pl p)) = None"
  shows "\<exists>c. prepare_thread k ps pl cnt =
     (\<lambda>a. if a \<in> set ps then fst (prepare_node k (pl a)) else pl a, c, None)"
  using assms
proof (induction ps arbitrary: pl cnt)
  case Nil
  then show ?case by simp
next
  case (Cons p ps)
  obtain n' where n': "prepare_node k (pl p) = (n', None)"
    using Cons.prems(2) by (cases "prepare_node k (pl p)") auto
  let ?pl = "pl(p := n')"
  let ?cnt = "if \<not> is_frozen n' then Suc cnt else cnt"
  have same: "?pl q = pl q" if "q \<in> set ps" for q using that Cons.prems(1) by auto
  have "\<forall>q\<in>set ps. snd (prepare_node k (?pl q)) = None" using Cons.prems(2) same by simp
  moreover have "distinct ps" using Cons.prems(1) by simp
  ultimately have "\<exists>c. prepare_thread k ps ?pl ?cnt =
     (\<lambda>a. if a \<in> set ps then fst (prepare_node k (?pl a)) else ?pl a, c, None)"
    by (intro Cons.IH)
  then obtain c where c: "prepare_thread k ps ?pl ?cnt =
     (\<lambda>a. if a \<in> set ps then fst (prepare_node k (?pl a)) else ?pl a, c, None)"
    by blast
  have "(\<lambda>a. if a \<in> set ps then fst (prepare_node k (?pl a)) else ?pl a)
      = (\<lambda>a. if a \<in> set (p # ps) then fst (prepare_node k (pl a)) else pl a)"
    using same n' Cons.prems(1) by (auto simp: fun_eq_iff)
  then show ?case using n' c by (simp del: fun_upd_apply)
qed

lemma prepare_thread_fail:
  assumes "distinct (pre @ f # post)" "\<forall>p\<in>set pre. snd (prepare_node k (pl p)) = None"
    "snd (prepare_node k (pl f)) = Some msg"
  shows "\<exists>c. prepare_thread k (pre @ f # post) pl cnt =
     (\<lambda>a. if a \<in> set pre \<or> a = f then fst (prepare_node k (pl a)) else pl a, c, Some msg)"
  using assms
proof (induction pre arbitrary: pl cnt)
  case Nil
  obtain n' where n': "prepare_node k (pl f) = (n', Some msg)"
    using Nil.prems(3) by (cases "prepare_node k (pl f)") auto
  have "pl(f := n') = (\<lambda>a. if a = f then fst (prepare_node k (pl a)) else pl a)"
    using n' by (auto simp: fun_eq_iff)
  then show ?case using n' by simp
next
  case (Cons p pre)
  obtain n' where n': "prepare_node k (pl p) = (n', None)"
    using Cons.prems(2) by (cases "prepare_node k (pl p)") auto
  let ?pl = "pl(p := n')"
  let ?cnt = "if \<not> is_frozen n' then Suc cnt else cnt"
  have same: "?pl q = pl q" if "q \<in> set pre \<or> q = f" for q using that Cons.prems(1) by auto
  have "\<forall>q\<in>set pre. snd (prepare_node k (?pl q)) = None" using Cons.prems(2) same by simp
  moreover have "snd (prepare_node k (?pl f)) = Some msg" using Cons.prems(3) same by simp
  moreover have "distinct (pre @ f # post)" using Cons.prems(1) by simp
  ultimately have "\<exists>c. prepare_thread k (pre @ f # post) ?pl ?cnt =
     (\<lambda>a. if a \<in> set pre \<or> a = f then fst (prepare_node k (?pl a)) else ?pl a, c, Some msg)"
    by (intro Cons.IH)
  then obtain c where c: "prepare_thread k (pre @ f # post) ?pl ?cnt =
     (\<lambda>a. if a \<in> set pre \<or> a = f then fst (prepare_node k (?pl a)) else ?pl a, c, Some msg)"
    by blast
  have "(\<lambda>a. if a \<in> set pre \<or> a = f then fst (prepare_node k (?pl a)) else ?pl a)
      = (\<lambda>a. if a \<in> set (p # pre) \<or> a = f then fst (prepare_node k (pl a)) else pl a)"
    using same n' Cons.prems(1) by (auto simp: fun_eq_iff)
  then show ?case using n' c by (simp del: fun_upd_apply)
qed


text \<open>
  The loop over the threads when only node \<open>f\<close>, in the list of thread \<open>w\<close>, throws: the
  nodes before \<open>f\<close> in that list, \<open>f\<close> itself and the nodes of every other thread are
  left as their preparation leaves them.
\<close>

lemma prepare_threads_run:
  assumes "\<forall>t\<in>set ts. t < length nv"
    and "distinct (concat (map (nth nv) ts))"
    and "\<forall>t\<in>set ts. \<forall>a\<in>set (nv ! t). a \<noteq> f \<longrightarrow> snd (prepare_node k (pl a)) = None"
    and "\<forall>t\<in>set ts. t \<noteq> w \<longrightarrow> f \<notin> set (nv ! t)"
    and "w \<in> set ts \<longrightarrow> nv ! w = pre @ f # post \<and> snd (prepare_node k (pl f)) = Some msg"
  shows "\<exists>c. prepare_threads k nv ts (pl, cnt, raised) =
     Inr (\<lambda>a. if a \<in> (\<Union>t\<in>set ts. if t = w then set pre \<union> {f} else set (nv ! t))
               then fst (prepare_node k (pl a)) else pl a,
          c, raised @ map (\<lambda>t. if t = w then Some msg else None) ts)"
  using assms
proof (induction ts arbitrary: pl cnt raised)
  case Nil
  then show ?case by simp
next
  case (Cons t ts)
  let ?V = "\<lambda>t. if t = w then set pre \<union> {f} else set (nv ! t)"
  let ?e = "if t = w then Some msg else None"
  have t: "t < length nv" using Cons.prems(1) by simp
  have dt: "distinct (nv ! t)" using Cons.prems(2) by simp
  have disj: "a \<notin> set (nv ! t)" if "a \<in> set (nv ! u)" "u \<in> set ts" for a u
    using Cons.prems(2) that by auto
  obtain c1 where run: "prepare_thread k (nv ! t) pl 0 =
      (\<lambda>a. if a \<in> ?V t then fst (prepare_node k (pl a)) else pl a, c1, ?e)"
  proof (cases "t = w")
    case True
    then have w: "nv ! t = pre @ f # post" "snd (prepare_node k (pl f)) = Some msg"
      using Cons.prems(5) by simp_all
    have "\<forall>p\<in>set pre. snd (prepare_node k (pl p)) = None"
      using Cons.prems(3) w(1) dt by auto
    then have "\<exists>c. prepare_thread k (pre @ f # post) pl 0 =
        (\<lambda>a. if a \<in> set pre \<or> a = f then fst (prepare_node k (pl a)) else pl a, c, Some msg)"
      using dt w by (intro prepare_thread_fail) simp_all
    then obtain c where "prepare_thread k (pre @ f # post) pl 0 =
        (\<lambda>a. if a \<in> set pre \<or> a = f then fst (prepare_node k (pl a)) else pl a, c, Some msg)"
      by blast
    moreover have "(\<lambda>a. if a \<in> set pre \<or> a = f then fst (prepare_node k (pl a)) else pl a)
        = (\<lambda>a. if a \<in> ?V t then fst (prepare_node k (pl a)) else pl a)"
      using True by (auto simp: fun_eq_iff)
    ultimately have "prepare_thread k (nv ! t) pl 0 =
        (\<lambda>a. if a \<in> ?V t then fst (prepare_node k (pl a)) else pl a, c, ?e)"
      using True w(1) by (simp only: simp_thms if_True)
    then show ?thesis by (rule that)
  next
    case False
    then have "\<forall>p\<in>set (nv ! t). snd (prepare_node k (pl p)) = None"
      using Cons.prems(3,4) by auto
    then have "\<exists>c. prepare_thread k (nv ! t) pl 0 =
        (\<lambda>a. if a \<in> set (nv ! t) then fst (prepare_node k (pl a)) else pl a, c, None)"
      using dt by (intro prepare_thread_ok)
    then obtain c where "prepare_thread k (nv ! t) pl 0 =
        (\<lambda>a. if a \<in> set (nv ! t) then fst (prepare_node k (pl a)) else pl a, c, None)"
      by blast
    then have "prepare_thread k (nv ! t) pl 0 =
        (\<lambda>a. if a \<in> ?V t then fst (prepare_node k (pl a)) else pl a, c, ?e)"
      using False by (simp only: simp_thms if_False)
    then show ?thesis by (rule that)
  qed
  let ?pl = "\<lambda>a. if a \<in> ?V t then fst (prepare_node k (pl a)) else pl a"
  have Vt: "?V t \<subseteq> set (nv ! t)" using Cons.prems(5) by auto
  have same: "?pl a = pl a" if "a \<in> set (nv ! u)" "u \<in> set ts" for a u
    using disj[OF that] Vt by auto
  have samef: "?pl f = pl f" if "w \<in> set ts"
  proof -
    have "f \<in> set (nv ! w)" using Cons.prems(5) that by simp
    then show ?thesis using same that by blast
  qed
  have "\<exists>c. prepare_threads k nv ts (?pl, cnt + c1, raised @ [?e]) =
     Inr (\<lambda>a. if a \<in> (\<Union>t\<in>set ts. ?V t) then fst (prepare_node k (?pl a)) else ?pl a,
          c, (raised @ [?e]) @ map (\<lambda>t. if t = w then Some msg else None) ts)"
  proof (rule Cons.IH)
    show "\<forall>t\<in>set ts. t < length nv" using Cons.prems(1) by simp
    show "distinct (concat (map (nth nv) ts))" using Cons.prems(2) by simp
    show "\<forall>u\<in>set ts. \<forall>a\<in>set (nv ! u). a \<noteq> f \<longrightarrow> snd (prepare_node k (?pl a)) = None"
      using Cons.prems(3) same by simp
    show "\<forall>t\<in>set ts. t \<noteq> w \<longrightarrow> f \<notin> set (nv ! t)" using Cons.prems(4) by simp
    show "w \<in> set ts \<longrightarrow> nv ! w = pre @ f # post \<and> snd (prepare_node k (?pl f)) = Some msg"
      using Cons.prems(5) samef by simp
  qed
  then obtain c where c: "prepare_threads k nv ts (?pl, cnt + c1, raised @ [?e]) =
     Inr (\<lambda>a. if a \<in> (\<Union>t\<in>set ts. ?V t) then fst (prepare_node k (?pl a)) else ?pl a,
          c, (raised @ [?e]) @ map (\<lambda>t. if t = w then Some msg else None) ts)"
    by blast
  have later: "a \<in> set (nv ! w)" if "a \<in> ?V u" "u \<in> set ts" "u = w" for a u
    using that Cons.prems(5) by auto
  have pool: "(\<lambda>a. if a \<in> (\<Union>t\<in>set ts. ?V t) then fst (prepare_node k (?pl a)) else ?pl a)
      = (\<lambda>a. if a \<in> (\<Union>t\<in>set (t # ts). ?V t) then fst (prepare_node k (pl a)) else pl a)"
  proof (rule ext)
    fix a
    show "(if a \<in> (\<Union>t\<in>set ts. ?V t) then fst (prepare_node k (?pl a)) else ?pl a)
      = (if a \<in> (\<Union>t\<in>set (t # ts). ?V t) then fst (prepare_node k (pl a)) else pl a)"
    proof (cases "a \<in> (\<Union>t\<in>set ts. ?V t)")
      case True
      then obtain u where u: "u \<in> set ts" "a \<in> ?V u" by blast
      have "a \<in> set (nv ! u)"
      proof (cases "u = w")
        case True
        then show ?thesis using later[OF u(2) u(1)] by simp
      next
        case False
        then show ?thesis using u(2) by simp
      qed
      then have eq: "?pl a = pl a" using same u(1) by blast
      have "u \<in> set (t # ts)" using u(1) by simp
      then have m: "a \<in> (\<Union>t\<in>set (t # ts). ?V t)" using u(2) by (rule UN_I)
      show ?thesis using m True by (simp only: eq if_True)
    next
      case False
      have "(\<Union>t\<in>set (t # ts). ?V t) = ?V t \<union> (\<Union>t\<in>set ts. ?V t)" by (simp only: list.set UN_insert)
      then have m: "a \<in> (\<Union>t\<in>set (t # ts). ?V t) \<longleftrightarrow> a \<in> ?V t" using False by (simp only: Un_iff simp_thms)
      show ?thesis using False by (simp only: m if_False)
    qed
  qed
  show ?case
    using t run c pool by (simp del: fun_upd_apply)
qed

lemma find_raised:
  "w \<in> set ts \<Longrightarrow>
   List.find (\<lambda>e. e \<noteq> None) (map (\<lambda>t. if t = w then Some msg else None) ts) = Some (Some msg)"
  by (induction ts) auto

lemma distinct_concat_disjoint:
  "distinct (concat (map g ts)) \<Longrightarrow> distinct ts \<Longrightarrow> t \<in> set ts \<Longrightarrow> u \<in> set ts \<Longrightarrow> t \<noteq> u
   \<Longrightarrow> x \<in> set (g t) \<Longrightarrow> x \<notin> set (g u)"
  by (induction ts) auto

lemma prepare_nodes_single_failure:
  assumes built: "get_num_threads k \<le> length (nodes_vec s)"
    and dist: "distinct (concat (map (nth (nodes_vec s)) [0..<get_num_threads k]))"
    and w: "w < get_num_threads k" "nodes_vec s ! w = pre @ f # post"
    and fail: "snd (prepare_node k (pool s f)) = Some msg"
    and ok: "\<forall>t<get_num_threads k. \<forall>a\<in>set (nodes_vec s ! t). a \<noteq> f \<longrightarrow>
               snd (prepare_node k (pool s a)) = None"
  shows "prepare_nodes k s =
     (Some (WrappedThreadException msg),
      s\<lparr>pool := (\<lambda>a. if a \<in> (\<Union>t\<in>{0..<get_num_threads k}.
                                  if t = w then set pre \<union> {f} else set (nodes_vec s ! t))
                      then fst (prepare_node k (pool s a)) else pool s a)\<rparr>)"
proof -
  let ?T = "get_num_threads k"
  let ?nv = "nodes_vec s"
  have notw: "f \<notin> set (?nv ! t)" if "t < ?T" "t \<noteq> w" for t
  proof -
    have "f \<in> set (?nv ! w)" using w(2) by simp
    then show ?thesis
      using distinct_concat_disjoint[OF dist, of w t f] that w(1) by simp
  qed
  have "\<exists>c. prepare_threads k ?nv [0..<?T] (pool s, 0, []) =
     Inr (\<lambda>a. if a \<in> (\<Union>t\<in>set [0..<?T]. if t = w then set pre \<union> {f} else set (?nv ! t))
               then fst (prepare_node k (pool s a)) else pool s a,
          c, [] @ map (\<lambda>t. if t = w then Some msg else None) [0..<?T])"
  proof (rule prepare_threads_run)
    show "\<forall>t\<in>set [0..<?T]. t < length ?nv" using built by simp
    show "distinct (concat (map (nth ?nv) [0..<?T]))" by (rule dist)
    show "\<forall>t\<in>set [0..<?T]. \<forall>a\<in>set (?nv ! t). a \<noteq> f \<longrightarrow> snd (prepare_node k (pool s a)) = None"
      using ok by simp
    show "\<forall>t\<in>set [0..<?T]. t \<noteq> w \<longrightarrow> f \<notin> set (?nv ! t)" using notw by simp
    show "w \<in> set [0..<?T] \<longrightarrow> ?nv ! w = pre @ f # post \<and> snd (prepare_node k (pool s f)) = Some msg"
      using w fail by simp
  qed
  then obtain c where run: "prepare_threads k ?nv [0..<?T] (pool s, 0, []) =
     Inr (\<lambda>a. if a \<in> (\<Union>t\<in>set [0..<?T]. if t = w then set pre \<union> {f} else set (?nv ! t))
               then fst (prepare_node k (pool s a)) else pool s a,
          c, map (\<lambda>t. if t = w then Some msg else None) [0..<?T])"
    by auto
  have fnd: "List.find (\<lambda>e. e \<noteq> None) (map (\<lambda>t. if t = w then Some msg else None) [0..<?T])
      = Some (Some msg)"
    using w(1) by (intro find_raised) simp
  show ?thesis
    unfolding prepare_nodes_def run by (simp only: sum.case prod.case fnd option.case set_upt)
qed


lemmas prepare_defs =
  prepare_nodes_def prepare_node_def failing_kernel_def example_prepared_def example_kernel_def

lemma replicate_two:
  "replicate 2 x = [x, x]"
  by (simp add: numeral_2_eq_2)

lemma example_prepared_1_2:
  "nodes_vec (example_prepared 1 2) = [[0, 1]]"
  "gid (pool (example_prepared 1 2) 0) = 1"
  "gid (pool (example_prepared 1 2) 1) = 2"
  "buffers_initialized (pool (example_prepared 1 2) 1) = False"
  by (simp_all add: example_prepared_def view_defs eval_defs upt_conv_Cons replicate_two)

lemma example_prepared_2_3:
  "nodes_vec (example_prepared 2 3) = [[1], [0, 2]]"
  "gid (pool (example_prepared 2 3) 0) = 1"
  "gid (pool (example_prepared 2 3) 1) = 2"
  "gid (pool (example_prepared 2 3) 2) = 3"
  "buffers_initialized (pool (example_prepared 2 3) 2) = False"
  by (simp_all add: example_prepared_def view_defs eval_defs upt_conv_Cons replicate_two)

lemma failing_kernel_simps:
  "get_num_threads (failing_kernel T g) = T"
  "prepare_node (failing_kernel T g) n =
     (n\<lparr>buffers_initialized := True\<rparr>, if gid n = g then Some ''calibration failed'' else None)"
  by (simp_all add: prepare_defs)

text \<open>
  Claim C4 fails where it says that every node other than the failing one still receives
  its preparation call. One thread holds the nodes at the addresses 0 and 1, with the GIDs
  1 and 2, and the calibration of GID 1 throws. The node with GID 2 would prepare without
  a failure, but the exception has left the loop of the thread: the one wrapped exception
  is thrown after the pass, and the node is as it was, its buffers not initialised.
\<close>

theorem prepare_nodes_skips_rest_of_thread:
  "nodes_vec (example_prepared 1 2) = [[0, 1]] \<and>
   snd (prepare_node (failing_kernel 1 1) (pool (example_prepared 1 2) 0)) = Some ''calibration failed'' \<and>
   snd (prepare_node (failing_kernel 1 1) (pool (example_prepared 1 2) 1)) = None \<and>
   fst (prepare_nodes (failing_kernel 1 1) (example_prepared 1 2))
     = Some (WrappedThreadException ''calibration failed'') \<and>
   pool (snd (prepare_nodes (failing_kernel 1 1) (example_prepared 1 2))) 1
     = pool (example_prepared 1 2) 1 \<and>
   pool (snd (prepare_nodes (failing_kernel 1 1) (example_prepared 1 2))) 1
     \<noteq> fst (prepare_node (failing_kernel 1 1) (pool (example_prepared 1 2) 1)) \<and>
   \<not> buffers_initialized (pool (snd (prepare_nodes (failing_kernel 1 1) (example_prepared 1 2))) 1)"
proof -
  have a: "buffers_initialized (fst (prepare_node (failing_kernel 1 1) (pool (example_prepared 1 2) 1)))"
    by (simp add: failing_kernel_simps)
  have "pool (example_prepared 1 2) 1
     \<noteq> fst (prepare_node (failing_kernel 1 1) (pool (example_prepared 1 2) 1))"
    using a example_prepared_1_2(4) by metis
  then show ?thesis
    by (simp add: prepare_nodes_def failing_kernel_simps example_prepared_1_2 upt_conv_Cons
        del: One_nat_def)
qed

text \<open>
  Claim C4, amended. When the preparation of exactly one node of the view throws, the
  pass ends with exactly one wrapped exception that carries the message of the original
  one, thrown after the loops of all threads have run: every node in the list of any
  other thread, earlier or later in thread order, and every node before the failing one
  in the list of its own thread is left as its preparation, buffer initialisation and
  calibration, leaves it. The nodes after the failing one in the list of the same
  thread are not prepared: the exception leaves the loop of that thread. The number of
  active nodes is not published. The view has a list for each thread, and no node is in
  two places of it.
\<close>

theorem prepare_nodes_one_failure:
  assumes built: "get_num_threads k \<le> length (nodes_vec s)"
    and dist: "distinct (concat (map (nth (nodes_vec s)) [0..<get_num_threads k]))"
    and w: "w < get_num_threads k" "nodes_vec s ! w = pre @ f # post"
    and fail: "snd (prepare_node k (pool s f)) = Some msg"
    and ok: "\<forall>t<get_num_threads k. \<forall>a\<in>set (nodes_vec s ! t). a \<noteq> f \<longrightarrow>
               snd (prepare_node k (pool s a)) = None"
  shows "fst (prepare_nodes k s) = Some (WrappedThreadException msg) \<and>
     (\<forall>t<get_num_threads k. t \<noteq> w \<longrightarrow>
        (\<forall>a\<in>set (nodes_vec s ! t).
           pool (snd (prepare_nodes k s)) a = fst (prepare_node k (pool s a)))) \<and>
     (\<forall>a\<in>set pre. pool (snd (prepare_nodes k s)) a = fst (prepare_node k (pool s a))) \<and>
     (\<forall>a\<in>set post. pool (snd (prepare_nodes k s)) a = pool s a) \<and>
     num_active_nodes (snd (prepare_nodes k s)) = num_active_nodes s"
proof -
  let ?T = "get_num_threads k"
  let ?U = "\<Union>t\<in>{0..<?T}. if t = w then set pre \<union> {f} else set (nodes_vec s ! t)"
  note run = prepare_nodes_single_failure[OF assms]
  have pl: "pool (snd (prepare_nodes k s)) a =
      (if a \<in> ?U then fst (prepare_node k (pool s a)) else pool s a)" for a
    unfolding run by simp
  have other: "a \<in> ?U" if "t < ?T" "t \<noteq> w" "a \<in> set (nodes_vec s ! t)" for a t
    using that by auto
  have before: "a \<in> ?U" if "a \<in> set pre" for a
    using that w(1) by auto
  have "nodes_vec s ! w \<in> set (map (nth (nodes_vec s)) [0..<?T])"
    using w(1) by simp
  then have "distinct (nodes_vec s ! w)"
    using dist unfolding distinct_concat_iff by blast
  then have dw: "distinct (pre @ f # post)"
    by (simp only: w(2))
  have after: "a \<notin> ?U" if a: "a \<in> set post" for a
  proof
    assume "a \<in> ?U"
    then obtain t where t0: "t \<in> {0..<?T}"
      and t2: "a \<in> (if t = w then set pre \<union> {f} else set (nodes_vec s ! t))"
      by (rule UN_E)
    note t = t0[simplified] t2
    show False
    proof (cases "t = w")
      case True
      then show ?thesis using t(2) a dw by auto
    next
      case False
      have "a \<in> set (nodes_vec s ! w)" using a w(2) by simp
      then have "a \<notin> set (nodes_vec s ! t)"
        using distinct_concat_disjoint[OF dist, of w t a] t(1) w(1) False by simp
      then show ?thesis using t(2) False by simp
    qed
  qed
  have c1: "fst (prepare_nodes k s) = Some (WrappedThreadException msg)"
    unfolding run by simp
  have c5: "num_active_nodes (snd (prepare_nodes k s)) = num_active_nodes s"
    unfolding run by simp
  have c2: "\<forall>t<?T. t \<noteq> w \<longrightarrow>
        (\<forall>a\<in>set (nodes_vec s ! t).
           pool (snd (prepare_nodes k s)) a = fst (prepare_node k (pool s a)))"
  proof (intro allI impI ballI)
    fix t a assume "t < ?T" "t \<noteq> w" "a \<in> set (nodes_vec s ! t)"
    then have "a \<in> ?U" by (rule other)
    then show "pool (snd (prepare_nodes k s)) a = fst (prepare_node k (pool s a))"
      by (simp only: pl if_True)
  qed
  have c3: "\<forall>a\<in>set pre. pool (snd (prepare_nodes k s)) a = fst (prepare_node k (pool s a))"
  proof
    fix a assume "a \<in> set pre"
    then have "a \<in> ?U" by (rule before)
    then show "pool (snd (prepare_nodes k s)) a = fst (prepare_node k (pool s a))"
      by (simp only: pl if_True)
  qed
  have c4: "\<forall>a\<in>set post. pool (snd (prepare_nodes k s)) a = pool s a"
  proof
    fix a assume "a \<in> set post"
    then have "a \<notin> ?U" by (rule after)
    then show "pool (snd (prepare_nodes k s)) a = pool s a"
      by (simp only: pl if_False)
  qed
  show ?thesis
    using c1 c2 c3 c4 c5 by blast
qed

text \<open>
  Two threads hold the nodes with the GIDs 2 (thread 0) and 1, 3 (thread 1). When the
  calibration of GID 2 throws, thread 1, which runs after thread 0, still prepares both
  of its nodes. When the calibration of GID 1 throws, thread 0 has prepared its node,
  and the node with GID 3, behind the failing one, is left as it was.
\<close>

theorem prepare_nodes_one_failure_witness:
  "nodes_vec (example_prepared 2 3) = [[1], [0, 2]] \<and>
   fst (prepare_nodes (failing_kernel 2 2) (example_prepared 2 3))
     = Some (WrappedThreadException ''calibration failed'') \<and>
   buffers_initialized (pool (snd (prepare_nodes (failing_kernel 2 2) (example_prepared 2 3))) 0) \<and>
   buffers_initialized (pool (snd (prepare_nodes (failing_kernel 2 2) (example_prepared 2 3))) 2) \<and>
   fst (prepare_nodes (failing_kernel 2 1) (example_prepared 2 3))
     = Some (WrappedThreadException ''calibration failed'') \<and>
   buffers_initialized (pool (snd (prepare_nodes (failing_kernel 2 1) (example_prepared 2 3))) 1) \<and>
   \<not> buffers_initialized (pool (snd (prepare_nodes (failing_kernel 2 1) (example_prepared 2 3))) 2)"
proof -
  let ?s = "example_prepared 2 3"
  have nv: "nodes_vec ?s ! 0 = [] @ 1 # []" "nodes_vec ?s ! 1 = [] @ 0 # [2]"
    "nodes_vec ?s ! 1 = [0, 2]" "nodes_vec ?s ! 0 = [1]"
    by (simp_all add: example_prepared_2_3)
  have d: "distinct (concat (map (nth (nodes_vec ?s)) [0..<get_num_threads (failing_kernel 2 g)]))" for g
    by (simp add: example_prepared_2_3 failing_kernel_simps upt_conv_Cons)
  have l: "get_num_threads (failing_kernel 2 g) \<le> length (nodes_vec ?s)" for g
    by (simp add: example_prepared_2_3 failing_kernel_simps)
  have ok2: "\<forall>t<get_num_threads (failing_kernel 2 2). \<forall>a\<in>set (nodes_vec ?s ! t). a \<noteq> 1 \<longrightarrow>
               snd (prepare_node (failing_kernel 2 2) (pool ?s a)) = None"
    by (simp add: failing_kernel_simps nv(3,4) example_prepared_2_3 less_2_cases_iff del: One_nat_def)
  have ok1: "\<forall>t<get_num_threads (failing_kernel 2 1). \<forall>a\<in>set (nodes_vec ?s ! t). a \<noteq> 0 \<longrightarrow>
               snd (prepare_node (failing_kernel 2 1) (pool ?s a)) = None"
    by (simp add: failing_kernel_simps nv(3,4) example_prepared_2_3 less_2_cases_iff del: One_nat_def)
  have f2: "snd (prepare_node (failing_kernel 2 2) (pool ?s 1)) = Some ''calibration failed''"
    by (simp add: failing_kernel_simps example_prepared_2_3 del: One_nat_def)
  have f1: "snd (prepare_node (failing_kernel 2 1) (pool ?s 0)) = Some ''calibration failed''"
    by (simp add: failing_kernel_simps example_prepared_2_3)
  have w0: "0 < get_num_threads (failing_kernel 2 2)" and w1: "1 < get_num_threads (failing_kernel 2 1)"
    by (simp_all add: failing_kernel_simps)
  note a = prepare_nodes_one_failure[OF l d w0 nv(1) f2 ok2]
  note b = prepare_nodes_one_failure[OF l d w1 nv(2) f1 ok1]
  have w12: "1 < get_num_threads (failing_kernel 2 2)" and w01: "0 < get_num_threads (failing_kernel 2 1)"
    by (simp_all add: failing_kernel_simps)
  have m: "(0::nat) \<in> set (nodes_vec ?s ! 1)" "(2::nat) \<in> set (nodes_vec ?s ! 1)"
    "(1::nat) \<in> set (nodes_vec ?s ! 0)" "(2::nat) \<in> set [2]" "(1::nat) \<noteq> 0" "(0::nat) \<noteq> 1"
    by (simp_all add: nv(3,4) del: One_nat_def)
  from a have "\<forall>t<get_num_threads (failing_kernel 2 2). t \<noteq> 0 \<longrightarrow>
        (\<forall>a\<in>set (nodes_vec ?s ! t).
           pool (snd (prepare_nodes (failing_kernel 2 2) ?s)) a
             = fst (prepare_node (failing_kernel 2 2) (pool ?s a)))"
    by blast
  then have a0: "pool (snd (prepare_nodes (failing_kernel 2 2) ?s)) 0
      = fst (prepare_node (failing_kernel 2 2) (pool ?s 0))"
    and a2: "pool (snd (prepare_nodes (failing_kernel 2 2) ?s)) 2
      = fst (prepare_node (failing_kernel 2 2) (pool ?s 2))"
    using w12 m(1,2,5) by blast+
  from b have "\<forall>t<get_num_threads (failing_kernel 2 1). t \<noteq> 1 \<longrightarrow>
        (\<forall>a\<in>set (nodes_vec ?s ! t).
           pool (snd (prepare_nodes (failing_kernel 2 1) ?s)) a
             = fst (prepare_node (failing_kernel 2 1) (pool ?s a)))"
    by blast
  then have b1: "pool (snd (prepare_nodes (failing_kernel 2 1) ?s)) 1
      = fst (prepare_node (failing_kernel 2 1) (pool ?s 1))"
    using w01 m(3,6) by blast
  from b have "\<forall>a\<in>set [2]. pool (snd (prepare_nodes (failing_kernel 2 1) ?s)) a = pool ?s a"
    by blast
  then have b2: "pool (snd (prepare_nodes (failing_kernel 2 1) ?s)) 2 = pool ?s 2"
    by simp
  have a1: "fst (prepare_nodes (failing_kernel 2 2) ?s)
      = Some (WrappedThreadException ''calibration failed'')"
    using a by blast
  have b0: "fst (prepare_nodes (failing_kernel 2 1) ?s)
      = Some (WrappedThreadException ''calibration failed'')"
    using b by blast
  show ?thesis
    by (simp add: a0 a1 a2 b0 b1 b2 failing_kernel_simps(2) example_prepared_2_3 del: One_nat_def)
qed

lemma placement_kept_refl: "placement_kept s s"
  by (simp add: placement_kept_def)

lemma placement_kept_trans:
  assumes "placement_kept s s'" "placement_kept s' s''"
  shows "placement_kept s s''"
proof -
  have 1: "next_addr s \<le> next_addr s'" "next_addr s' \<le> next_addr s''"
    using assms by (simp_all add: placement_kept_def)
  have "gid (pool s'' a) = gid (pool s a) \<and> thread (pool s'' a) = thread (pool s a) \<and>
        vp (pool s'' a) = vp (pool s a)" if a: "a < next_addr s" for a
  proof -
    have "a < next_addr s'" using a 1(1) by simp
    then have "gid (pool s'' a) = gid (pool s' a) \<and> thread (pool s'' a) = thread (pool s' a) \<and>
        vp (pool s'' a) = vp (pool s' a)"
      using assms(2) by (simp add: placement_kept_def)
    moreover have "gid (pool s' a) = gid (pool s a) \<and> thread (pool s' a) = thread (pool s a) \<and>
        vp (pool s' a) = vp (pool s a)"
      using assms(1) a by (simp add: placement_kept_def)
    ultimately show ?thesis by simp
  qed
  then show ?thesis using 1 by (simp add: placement_kept_def)
qed

lemma grown_placement_kept: "grown Q s s' \<Longrightarrow> placement_kept s s'"
  by (simp add: grown_def placement_kept_def)

lemma placement_kept_update_node:
  "keeps_placement f \<Longrightarrow> placement_kept s (update_node p f s)"
  by (simp add: placement_kept_def update_node_def keeps_placement_def)

lemma placement_kept_foldl:
  assumes "\<And>s x. x \<in> set xs \<Longrightarrow> placement_kept s (f s x)"
  shows "placement_kept s (foldl f s xs)"
  using assms
proof (induction xs arbitrary: s)
  case Nil
  show ?case by (simp add: placement_kept_refl)
next
  case (Cons x xs)
  have "placement_kept s (f s x)" by (rule Cons.prems) simp
  moreover have "placement_kept (f s x) (foldl f (f s x) xs)"
    by (rule Cons.IH) (simp add: Cons.prems)
  ultimately show ?case by (simp add: placement_kept_trans)
qed

lemma placement_kept_foldl_fail:
  assumes "\<And>s x s'. f s x = Inr s' \<Longrightarrow> placement_kept s s'"
    and "foldl_fail f s xs = Inr s'"
  shows "placement_kept s s'"
  using assms(2)
proof (induction xs arbitrary: s)
  case Nil
  then show ?case by (simp add: placement_kept_refl)
next
  case (Cons x xs)
  then obtain s1 where 1: "f s x = Inr s1" and 2: "foldl_fail f s1 xs = Inr s'"
    by (auto split: sum.splits)
  have "placement_kept s s1" using 1 by (rule assms(1))
  moreover have "placement_kept s1 s'" using 2 by (rule Cons.IH)
  ultimately show ?case by (rule placement_kept_trans)
qed

text \<open>The loop of the branch for nodes with proxies, whenever it ends.\<close>

lemma local_gid_loop_grown:
  assumes "local_gid_loop k mid m max_gid g s visited = Some y"
  shows "grown (placed k) s (fst y)"
proof (rule local_gid_loop.raw_induct
    [where P = "\<lambda>k mid m max_gid g s visited y. grown (placed k) s (fst y)", OF _ assms])
  fix loop k mid m max_gid g s visited y
  assume IH: "\<And>k mid m max_gid g s visited y.
      loop k mid m max_gid g s visited = Some y \<Longrightarrow> grown (placed k) s (fst y)"
    and eq: "(if g < max_gid
      then if is_local_vp k (suggest_vp k g)
           then loop k mid m max_gid (next_local_gid k g)
                 (add_proxied_node k mid m g s) (visited @ [g])
           else loop k mid m max_gid (index_add g 1) s (visited @ [g])
      else Some (s, visited)) = Some y"
  show "grown (placed k) s (fst y)"
  proof (cases "g < max_gid")
    case False
    then have "fst y = s" using eq by auto
    then show ?thesis using grown_refl[of "placed k" s] by simp
  next
    case lt: True
    show ?thesis
    proof (cases "is_local_vp k (suggest_vp k g)")
      case True
      then have "loop k mid m max_gid (next_local_gid k g) (add_proxied_node k mid m g s)
                   (visited @ [g]) = Some y"
        using eq lt by simp
      then have "grown (placed k) (add_proxied_node k mid m g s) (fst y)" by (rule IH)
      moreover have "grown (placed k) s (add_proxied_node k mid m g s)"
        by (rule grown_weaken[OF grown_add_proxied_node]) simp
      ultimately show ?thesis using grown_trans by blast
    next
      case False
      then have "loop k mid m max_gid (index_add g 1) s (visited @ [g]) = Some y"
        using eq lt by simp
      then show ?thesis by (rule IH)
    qed
  qed
qed

lemma add_proxied_nodes_grown:
  assumes "add_proxied_nodes k mid m min_gid max_gid s = Some (s', visited)"
  shows "grown (placed k) s s'"
proof -
  let ?g = "if is_local_vp k (suggest_vp k min_gid) then min_gid else next_local_gid k min_gid"
  from assms obtain s1 where 1: "local_gid_loop k mid m max_gid ?g s [] = Some (s1, visited)"
    and 2: "s' = (if \<not> is_local_vp k (suggest_vp k (index_sub max_gid 1))
                   then add_remote_node (index_sub max_gid 1) s1 else s1)"
    by (auto simp: add_proxied_nodes_def Let_def split: option.splits)
  have "grown (placed k) s s1" using local_gid_loop_grown[OF 1] by simp
  moreover have "grown (placed k) s1 s'"
    unfolding 2 by (simp add: grown_add_remote_node grown_refl)
  ultimately show ?thesis by (rule grown_trans)
qed

lemma placement_kept_add_sibling_container:
  "placement_kept s (add_sibling_container k mid m s g)"
proof -
  have r: "placement_kept s1 (add_replica k mid m g c s1 t)
      \<and> next_addr s1 \<le> next_addr (add_replica k mid m g c s1 t)" if "c < next_addr s1" for s1 t c
    using that
    by (simp add: add_replica_def allocate_def update_node_def placement_kept_def Let_def)
  have f: "c < next_addr s1 \<Longrightarrow> placement_kept s1 (foldl (add_replica k mid m g c) s1 ts)" for c s1 ts
  proof (induction ts arbitrary: s1)
    case Nil
    show ?case by (simp add: placement_kept_refl)
  next
    case (Cons t ts)
    have 1: "placement_kept s1 (add_replica k mid m g c s1 t)"
      and 2: "c < next_addr (add_replica k mid m g c s1 t)"
      using r[OF Cons.prems, of t] Cons.prems by simp_all
    have "placement_kept (add_replica k mid m g c s1 t)
            (foldl (add_replica k mid m g c) (add_replica k mid m g c s1 t) ts)"
      using 2 by (rule Cons.IH)
    with 1 show ?case by (simp add: placement_kept_trans)
  qed
  define s3 where "s3 = add_local_node (next_addr s)
      (update_node (next_addr s) (\<lambda>c. c\<lparr>model_id := - 1, gid := g\<rparr>)
         (snd (allocate (get_model k 0) (vp_to_thread k (suggest_vp k g)) s)))"
  have a: "placement_kept s s3" and b: "next_addr s < next_addr s3"
    by (simp_all add: s3_def allocate_def update_node_def add_local_node_def placement_kept_def)
  have "add_sibling_container k mid m s g
      = foldl (add_replica k mid m g (next_addr s)) s3 [0..<get_num_threads k]"
    by (simp add: add_sibling_container_def s3_def allocate_def Let_def)
  then show ?thesis
    using placement_kept_trans[OF a f[OF b]] by simp
qed

lemma add_node_keeps_placement:
  assumes "add_node k mid n s = Some (r, s')"
  shows "placement_kept s s'"
proof -
  define m where "m = get_model k mid"
  define min_gid where "min_gid = index_add (get_max_gid (local_nodes s)) 1"
  define max_gid where "max_gid = index_add min_gid (index_of_long n)"
  define s1 where "s1 = s\<lparr>model_ranges := model_ranges s @ [(mid, min_gid, index_sub max_gid 1)]\<rparr>"
  have s1: "placement_kept s s1" by (simp add: s1_def placement_kept_def)
  have fin: "placement_kept s (set_off_grid_spiking m s2)" if "placement_kept s1 s2" for s2
  proof -
    have "placement_kept s2 (set_off_grid_spiking m s2)"
      by (simp add: set_off_grid_spiking_def placement_kept_def)
    with s1 that show ?thesis using placement_kept_trans by blast
  qed
  have gr: "placement_kept s1 (foldl (add_global_receiver k mid m) s1 [min_gid..<max_gid])"
    by (intro placement_kept_foldl grown_placement_kept[OF grown_add_global_receiver])
  have sc: "placement_kept s1 (foldl (add_sibling_container k mid m) s1 [min_gid..<max_gid])"
    by (intro placement_kept_foldl placement_kept_add_sibling_container)
  have sn: "placement_kept s1 (foldl (add_single_node k mid m) s1 [min_gid..<max_gid])"
    by (intro placement_kept_foldl grown_placement_kept[OF grown_add_single_node])
  have px: "placement_kept s1 s2" if "add_proxied_nodes k mid m min_gid max_gid s1 = Some (s2, v)" for s2 v
    using that by (intro grown_placement_kept[OF add_proxied_nodes_grown])
  have "s' = s \<or> s' = s1 \<or> s' = set_off_grid_spiking m (foldl (add_global_receiver k mid m) s1 [min_gid..<max_gid])
      \<or> s' = set_off_grid_spiking m (foldl (add_sibling_container k mid m) s1 [min_gid..<max_gid])
      \<or> s' = set_off_grid_spiking m (foldl (add_single_node k mid m) s1 [min_gid..<max_gid])
      \<or> (\<exists>s2 v. add_proxied_nodes k mid m min_gid max_gid s1 = Some (s2, v) \<and>
            s' = set_off_grid_spiking m s2)"
    using assms unfolding add_node_def Let_def m_def[symmetric] min_gid_def[symmetric]
      max_gid_def[symmetric] s1_def[symmetric]
    by (auto split: if_splits option.splits)
  then show ?thesis
    using s1 fin[OF gr] fin[OF sc] fin[OF sn] fin[OF px] placement_kept_refl by blast
qed

lemma register_thread_local_placement_kept:
  assumes "register_thread_local t s idx = Inr s'"
  shows "placement_kept s s'"
  using assms
  by (auto simp: register_thread_local_def Let_def placement_kept_def update_node_def
      split: if_splits option.splits)

lemma ensure_valid_placement_kept:
  assumes "ensure_valid_thread_local_ids k s = Inr s'"
  shows "placement_kept s s'"
proof (cases "size_nm s = nodes_vec_network_size s")
  case True
  then show ?thesis using assms by (simp add: ensure_valid_thread_local_ids_def placement_kept_refl)
next
  case False
  define s0 where "s0 = s\<lparr>nodes_vec := replicate (get_num_threads k) [],
                     wfr_nodes_vec := replicate (get_num_threads k) []\<rparr>"
  from assms False obtain s1 where 1: "foldl_fail rebuild_thread s0 [0..<get_num_threads k] = Inr s1"
    and 2: "s' = s1\<lparr>nodes_vec_network_size := size_nm s1,
                         wfr_is_used := list_ex (\<lambda>t. length (wfr_nodes_vec s1 ! t) > 0)
                                          [0..<get_num_threads k]\<rparr>"
    by (auto simp: ensure_valid_thread_local_ids_def s0_def Let_def split: sum.splits)
  have a: "placement_kept s s0" by (simp add: s0_def placement_kept_def)
  have "placement_kept u u'" if "rebuild_thread u t = Inr u'" for u t u'
    using that unfolding rebuild_thread_def
    by (rule placement_kept_foldl_fail[rotated]) (rule register_thread_local_placement_kept)
  then have b: "placement_kept s0 s1"
    using 1 by (rule placement_kept_foldl_fail)
  have c: "placement_kept s1 s'" by (simp add: 2 placement_kept_def)
  show ?thesis using a b c placement_kept_trans by blast
qed

lemma prepare_node_keeps_placement:
  assumes "hooks_keep_placement k"
  shows "gid (fst (prepare_node k n)) = gid n \<and> thread (fst (prepare_node k n)) = thread n \<and>
         vp (fst (prepare_node k n)) = vp n"
proof -
  have ib: "gid (fst (init_buffers k n)) = gid n \<and> thread (fst (init_buffers k n)) = thread n \<and>
         vp (fst (init_buffers k n)) = vp n" for n
    using assms by (simp add: hooks_keep_placement_def keeps_placement_def)
  have cb: "gid (fst (calibrate k n)) = gid n \<and> thread (fst (calibrate k n)) = thread n \<and>
         vp (fst (calibrate k n)) = vp n" for n
    using assms by (simp add: hooks_keep_placement_def keeps_placement_def)
  obtain n1 r where e: "init_buffers k n = (n1, r)" by (cases "init_buffers k n")
  have n1: "gid n1 = gid n \<and> thread n1 = thread n \<and> vp n1 = vp n"
    using ib[of n] e by simp
  show ?thesis
  proof (cases r)
    case None
    then have "prepare_node k n = calibrate k n1" by (simp add: prepare_node_def e)
    then show ?thesis using cb[of n1] n1 by simp
  next
    case (Some msg)
    then have "prepare_node k n = (n1, Some msg)" by (simp add: prepare_node_def e)
    then show ?thesis using n1 by simp
  qed
qed

lemma prepare_thread_keeps_placement:
  assumes "hooks_keep_placement k"
  shows "gid (fst (prepare_thread k ps pl cnt) a) = gid (pl a) \<and>
         thread (fst (prepare_thread k ps pl cnt) a) = thread (pl a) \<and>
         vp (fst (prepare_thread k ps pl cnt) a) = vp (pl a)"
proof (induction ps arbitrary: pl cnt)
  case Nil
  show ?case by simp
next
  case (Cons p ps)
  obtain n' r where e: "prepare_node k (pl p) = (n', r)" by (cases "prepare_node k (pl p)")
  have n': "gid n' = gid (pl p) \<and> thread n' = thread (pl p) \<and> vp n' = vp (pl p)"
    using prepare_node_keeps_placement[OF assms, of "pl p"] e by simp
  define pl1 where "pl1 = pl(p := n')"
  have pl1: "gid (pl1 a) = gid (pl a) \<and> thread (pl1 a) = thread (pl a) \<and> vp (pl1 a) = vp (pl a)"
    using n' by (simp add: pl1_def)
  show ?case
  proof (cases r)
    case None
    define c1 where "c1 = (if \<not> is_frozen n' then Suc cnt else cnt)"
    have eq: "prepare_thread k (p # ps) pl cnt = prepare_thread k ps pl1 c1"
      by (simp add: e None pl1_def c1_def)
    have "gid (fst (prepare_thread k ps pl1 c1) a) = gid (pl1 a) \<and>
         thread (fst (prepare_thread k ps pl1 c1) a) = thread (pl1 a) \<and>
         vp (fst (prepare_thread k ps pl1 c1) a) = vp (pl1 a)"
      by (rule Cons.IH)
    then show ?thesis unfolding eq using pl1 by simp
  next
    case (Some msg)
    have "prepare_thread k (p # ps) pl cnt = (pl1, cnt, Some msg)"
      by (simp add: e Some pl1_def)
    then show ?thesis using pl1 by simp
  qed
qed

lemma prepare_threads_keeps_placement:
  assumes "hooks_keep_placement k"
    and "prepare_threads k nv ts (pl, cnt, raised) = Inr (pl', cnt', raised')"
  shows "gid (pl' a) = gid (pl a) \<and> thread (pl' a) = thread (pl a) \<and> vp (pl' a) = vp (pl a)"
  using assms(2)
proof (induction ts arbitrary: pl cnt raised)
  case Nil
  then show ?case by simp
next
  case (Cons t ts)
  obtain pl1 c e where pt: "prepare_thread k (nv ! t) pl 0 = (pl1, c, e)"
    by (cases "prepare_thread k (nv ! t) pl 0")
  have lt: "t < length nv" using Cons.prems by (simp split: if_splits)
  then have "prepare_threads k nv ts (pl1, cnt + c, raised @ [e]) = Inr (pl', cnt', raised')"
    using Cons.prems pt by simp
  then have "gid (pl' a) = gid (pl1 a) \<and> thread (pl' a) = thread (pl1 a) \<and> vp (pl' a) = vp (pl1 a)"
    by (rule Cons.IH)
  moreover have "gid (pl1 a) = gid (pl a) \<and> thread (pl1 a) = thread (pl a) \<and> vp (pl1 a) = vp (pl a)"
    using prepare_thread_keeps_placement[OF assms(1), of "nv ! t" pl 0 a] pt by simp
  ultimately show ?case by simp
qed

lemma prepare_nodes_placement_kept:
  assumes "hooks_keep_placement k"
  shows "placement_kept s (snd (prepare_nodes k s))"
proof (cases "prepare_threads k (nodes_vec s) [0..<get_num_threads k] (pool s, 0, [])")
  case (Inl e)
  then show ?thesis by (simp add: prepare_nodes_def placement_kept_refl)
next
  case (Inr res)
  obtain pl cnt raised where res: "res = (pl, cnt, raised)" by (cases res)
  have k: "gid (pl a) = gid (pool s a) \<and> thread (pl a) = thread (pool s a) \<and> vp (pl a) = vp (pool s a)" for a
    using prepare_threads_keeps_placement[OF assms Inr[unfolded res]] .
  have "snd (prepare_nodes k s) = s\<lparr>pool := pl\<rparr> \<or>
        snd (prepare_nodes k s) = s\<lparr>pool := pl, num_active_nodes := cnt\<rparr>"
    by (simp add: prepare_nodes_def Inr res split: option.splits)
  then show ?thesis using k by (auto simp: placement_kept_def)
qed

lemma reset_entry_placement_kept:
  assumes "hooks_keep_placement k"
  shows "placement_kept s (reset_entry k s idx)"
proof -
  have kp: "keeps_placement (\<lambda>n. (init_state k n)\<lparr>buffers_initialized := False\<rparr>)"
    using assms by (simp add: hooks_keep_placement_def keeps_placement_def)
  have rn: "placement_kept u (reset_node k u p)" for u p
    unfolding reset_node_def using kp by (rule placement_kept_update_node)
  show ?thesis
    unfolding reset_entry_def Let_def
    by (simp add: rn placement_kept_refl placement_kept_foldl)
qed

lemma reset_nodes_state_placement_kept:
  assumes "hooks_keep_placement k"
  shows "placement_kept s (reset_nodes_state k s)" "placement_kept s (reinit_nodes k s)"
proof -
  have "placement_kept s (foldl (reset_entry k) s xs)" for xs
  proof (induction xs arbitrary: s)
    case Nil
    show ?case by (simp add: placement_kept_refl)
  next
    case (Cons x xs)
    show ?case
      using placement_kept_trans[OF reset_entry_placement_kept[OF assms, of s x] Cons.IH]
      by simp
  qed
  then show "placement_kept s (reset_nodes_state k s)" "placement_kept s (reinit_nodes k s)"
    by (simp_all add: reset_nodes_state_def reinit_nodes_def)
qed

lemma visit_all_threads_placement_kept:
  assumes "keeps_placement hook" and "visit_all_threads k hook s = Inr s'"
  shows "placement_kept s s'"
proof -
  have v: "placement_kept u u'" if "visit_thread_local hook t u idx = Inr u'" for t u idx u'
    using that placement_kept_update_node[OF assms(1)]
    by (auto simp: visit_thread_local_def Let_def placement_kept_refl
        split: if_splits option.splits)
  have w: "placement_kept u u'"
    if "foldl_fail (visit_thread_local hook t) u [0..<san_size (local_nodes u)] = Inr u'" for t u u'
    using that by (rule placement_kept_foldl_fail[rotated]) (rule v)
  show ?thesis
    using assms(2) unfolding visit_all_threads_def
    by (rule placement_kept_foldl_fail[rotated]) (rule w)
qed

lemma set_status_single_node_placement_kept:
  assumes "hooks_keep_placement k"
  shows "placement_kept s (snd (set_status_single_node k s p d))"
proof -
  have kp: "keeps_placement (\<lambda>n. fst (set_status_base k d n))"
    using assms by (simp add: hooks_keep_placement_def)
  have u: "placement_kept s (s\<lparr>pool := (pool s)(p := fst (set_status_base k d (pool s p)))\<rparr>)"
    using placement_kept_update_node[OF kp, of s p] by (simp add: update_node_def)
  obtain n' r where e: "set_status_base k d (pool s p) = (n', r)"
    by (cases "set_status_base k d (pool s p)")
  show ?thesis
    using u by (cases r) (simp_all add: set_status_single_node_def e placement_kept_refl)
qed

lemma set_status_siblings_placement_kept:
  assumes "set_status_siblings k target d s t = Some y"
  shows "hooks_keep_placement k \<longrightarrow> placement_kept s (snd y)"
proof (rule set_status_siblings.raw_induct
    [where P = "\<lambda>k target d s t y. hooks_keep_placement k \<longrightarrow> placement_kept s (snd y)",
     OF _ assms])
  fix loop k target d s t y
  assume IH: "\<And>k target d s t y. loop k target d s t = Some y \<Longrightarrow>
      hooks_keep_placement k \<longrightarrow> placement_kept s (snd y)"
    and eq: "(if t < num_thread_siblings (pool s target) then
        (case get_thread_sibling (pool s target) t of
           None \<Rightarrow> None
         | Some sib \<Rightarrow>
             (case set_status_single_node k s sib d of
                (Some e, s') \<Rightarrow> Some (Some e, s')
              | (None, s') \<Rightarrow> loop k target d s' (Suc t)))
      else Some (None, s)) = Some y"
  show "hooks_keep_placement k \<longrightarrow> placement_kept s (snd y)"
  proof
    assume h: "hooks_keep_placement k"
    show "placement_kept s (snd y)"
    proof (cases "t < num_thread_siblings (pool s target)")
      case False
      then have "snd y = s" using eq by auto
      then show ?thesis by (simp add: placement_kept_refl)
    next
      case True
      then obtain sib where sib: "get_thread_sibling (pool s target) t = Some sib"
        using eq by (auto split: option.splits)
      obtain r s' where one: "set_status_single_node k s sib d = (r, s')"
        by (cases "set_status_single_node k s sib d")
      have k1: "placement_kept s s'"
        using set_status_single_node_placement_kept[OF h, of s sib d] one by simp
      show ?thesis
      proof (cases r)
        case None
        then have "loop k target d s' (Suc t) = Some y"
          using eq True sib one by simp
        then have "placement_kept s' (snd y)" using IH h by blast
        with k1 show ?thesis by (rule placement_kept_trans)
      next
        case (Some e)
        then have "snd y = s'" using eq True sib one by auto
        then show ?thesis using k1 by simp
      qed
    qed
  qed
qed

lemma set_status_placement_kept:
  assumes h: "hooks_keep_placement k" and r: "set_status k g d s = Some (e, s')"
  shows "placement_kept s s'"
proof (cases "get_node_by_gid (local_nodes s) g")
  case None
  then show ?thesis using r by (simp add: set_status_def placement_kept_refl)
next
  case (Some target)
  show ?thesis
  proof (cases "num_thread_siblings (pool s target) = 0")
    case True
    then have "s' = snd (set_status_single_node k s target d)"
      using r Some by (auto simp: set_status_def)
    then show ?thesis using set_status_single_node_placement_kept[OF h] by simp
  next
    case False
    then have "set_status_siblings k target d s 0 = Some (e, s')"
      using r Some by (simp add: set_status_def)
    then show ?thesis using set_status_siblings_placement_kept h by fastforce
  qed
qed

lemma get_status_placement_kept:
  assumes h: "hooks_keep_placement k" and r: "get_status k idx s = Inr s'"
  shows "placement_kept s s'"
proof -
  have kp: "keeps_placement (get_status_base k)"
    using h by (simp add: hooks_keep_placement_def)
  show ?thesis
    using r placement_kept_update_node[OF kp] placement_kept_refl
    by (auto simp: get_status_def split: sum.splits node_ptr.splits)
qed

lemma init_state_node_placement_kept:
  assumes h: "hooks_keep_placement k" and r: "init_state_node k g s = Inr s'"
  shows "placement_kept s s'"
proof -
  have kp: "keeps_placement (init_state k)"
    using h by (simp add: hooks_keep_placement_def)
  show ?thesis
    using r placement_kept_update_node[OF kp] placement_kept_refl
    by (auto simp: init_state_node_def split: sum.splits node_ptr.splits)
qed

lemma restore_nodes_placement_kept:
  assumes h: "hooks_keep_placement k" and r: "restore_nodes k node_list s = Some (e, s')"
  shows "placement_kept s s'"
  using r
proof (induction node_list arbitrary: s)
  case Nil
  then show ?case by (simp add: placement_kept_refl)
next
  case (Cons node_props rest)
  show ?case
  proof (cases "map_of node_props ''model''")
    case None
    then show ?thesis using Cons.prems by (simp add: placement_kept_refl)
  next
    case (Some model_name)
    let ?mid = "index_of_long (get_model_id k model_name)"
    from Cons.prems Some obtain res s1 where add: "add_node k ?mid 1 s = Some (res, s1)"
      by (cases "add_node k ?mid 1 s") auto
    have k1: "placement_kept s s1" using add by (rule add_node_keeps_placement)
    show ?thesis
    proof (cases res)
      case (Inl err)
      then have "s' = s1" using Cons.prems Some add by simp
      then show ?thesis using k1 by simp
    next
      case (Inr handle)
      obtain first_gid last_gid model where hd: "handle = GIDCollectionPrimitive first_gid last_gid model"
        by (cases handle)
      show ?thesis
      proof (cases "get_node s1 first_gid default_thread")
        case (Inl err)
        then have "s' = s1" using Cons.prems Some add Inr hd by (simp split: if_splits)
        then show ?thesis using k1 by simp
      next
        case ptr: (Inr ptr)
        show ?thesis
        proof (cases ptr)
          case (ProxyNode t g)
          obtain n' x where sb: "set_status_base k node_props (get_proxy_node k t g) = (n', x)"
            by (cases "set_status_base k node_props (get_proxy_node k t g)")
          show ?thesis
          proof (cases x)
            case None
            then have "restore_nodes k rest s1 = Some (e, s')"
              using Cons.prems Some add Inr hd ptr ProxyNode sb by simp
            then have "placement_kept s1 s'" by (rule Cons.IH)
            with k1 show ?thesis by (rule placement_kept_trans)
          next
            case (Some msg)
            then have "s' = s1"
              using Cons.prems \<open>map_of node_props ''model'' = Some model_name\<close> add Inr hd ptr
                ProxyNode sb by simp
            then show ?thesis using k1 by simp
          qed
        next
          case (PoolNode p)
          obtain n' x where sb: "set_status_base k node_props (pool s1 p) = (n', x)"
            by (cases "set_status_base k node_props (pool s1 p)")
          define s2 where "s2 = s1\<lparr>pool := (pool s1)(p := n')\<rparr>"
          have kp: "keeps_placement (\<lambda>n. fst (set_status_base k node_props n))"
            using h by (simp add: hooks_keep_placement_def)
          have "placement_kept s1 s2"
            using placement_kept_update_node[OF kp, of s1 p] sb
            by (simp add: update_node_def s2_def)
          with k1 have k2: "placement_kept s s2" by (rule placement_kept_trans)
          show ?thesis
          proof (cases x)
            case None
            then have "restore_nodes k rest s2 = Some (e, s')"
              using Cons.prems Some add Inr hd ptr PoolNode sb by (simp add: s2_def)
            then have "placement_kept s2 s'" by (rule Cons.IH)
            with k2 show ?thesis by (rule placement_kept_trans)
          next
            case (Some msg)
            then have "s' = s2"
              using Cons.prems \<open>map_of node_props ''model'' = Some model_name\<close> add Inr hd ptr
                PoolNode sb by (simp add: s2_def)
            then show ?thesis using k2 by simp
          qed
        qed
      qed
    qed
  qed
qed

lemma state_or_unchanged_cases:
  assumes "state_or_unchanged s r = Some s'"
  shows "s' = s \<or> r = Inr s'"
  using assms by (auto simp: state_or_unchanged_def split: sum.splits if_splits)

lemma run_operation_placement_kept:
  assumes h: "hooks_keep_placement k" and r: "run_operation k x s = Some s'"
  shows "placement_kept s s'"
proof (cases x)
  case (AddNode mid n)
  then obtain res where "add_node k mid n s = Some (res, s')" using r by auto
  then show ?thesis by (rule add_node_keeps_placement)
next
  case (RestoreNodes node_list)
  then obtain e where "restore_nodes k node_list s = Some (e, s')" using r by auto
  with h show ?thesis by (rule restore_nodes_placement_kept)
next
  case (SetStatus g d)
  then obtain e where "set_status k g d s = Some (e, s')" using r by auto
  with h show ?thesis by (rule set_status_placement_kept)
next
  case (GetStatus idx)
  then have "s' = s \<or> get_status k idx s = Inr s'"
    using r by (simp add: state_or_unchanged_cases)
  then show ?thesis using get_status_placement_kept[OF h] placement_kept_refl by blast
next
  case (InitState g)
  then have "s' = s \<or> init_state_node k g s = Inr s'"
    using r by (simp add: state_or_unchanged_cases)
  then show ?thesis using init_state_node_placement_kept[OF h] placement_kept_refl by blast
next
  case Initialize
  then have "ensure_valid_thread_local_ids k (s\<lparr>nodes_vec_network_size := 0\<rparr>) = Inr s'"
    using r by (cases "initialize k s") (simp_all add: initialize_def)
  then have "placement_kept (s\<lparr>nodes_vec_network_size := 0\<rparr>) s'"
    by (rule ensure_valid_placement_kept)
  moreover have "placement_kept s (s\<lparr>nodes_vec_network_size := 0\<rparr>)"
    by (simp add: placement_kept_def)
  ultimately show ?thesis using placement_kept_trans by blast
next
  case Finalize
  then show ?thesis
    using r by (auto simp: finalize_def destruct_nodes_def placement_kept_def)
next
  case EnsureValidThreadLocalIds
  then have "ensure_valid_thread_local_ids k s = Inr s'"
    using r by (cases "ensure_valid_thread_local_ids k s") simp_all
  then show ?thesis by (rule ensure_valid_placement_kept)
next
  case PrepareNodes
  then have "s' = snd (prepare_nodes k s)"
    using r by (auto split: prod.splits option.splits failure.splits)
  then show ?thesis using prepare_nodes_placement_kept[OF h] by simp
next
  case ResetNodesState
  then show ?thesis using r reset_nodes_state_placement_kept(1)[OF h, of s] by simp
next
  case ReinitNodes
  then show ?thesis using r reset_nodes_state_placement_kept(2)[OF h, of s] by simp
next
  case PostRunCleanup
  then have "visit_all_threads k (post_run_cleanup_hook k) s = Inr s'"
    using r by (cases "post_run_cleanup k s") (simp_all add: post_run_cleanup_def)
  moreover have "keeps_placement (post_run_cleanup_hook k)"
    using h by (simp add: hooks_keep_placement_def)
  ultimately show ?thesis by (intro visit_all_threads_placement_kept)
next
  case FinalizeNodes
  then have "visit_all_threads k (finalize_hook k) s = Inr s'"
    using r by (cases "finalize_nodes k s") (simp_all add: finalize_nodes_def)
  moreover have "keeps_placement (finalize_hook k)"
    using h by (simp add: hooks_keep_placement_def)
  ultimately show ?thesis by (intro visit_all_threads_placement_kept)
next
  case CheckWfrUse
  then show ?thesis using r by (auto simp: check_wfr_use_def placement_kept_def)
next
  case (GetNode g t)
  then have "s' = s"
    using r by (cases "get_node s g t") (auto dest: state_or_unchanged_cases)
  then show ?thesis by (simp add: placement_kept_refl)
next
  case (GetThreadSiblings g)
  then have "s' = s"
    using r by (cases "get_thread_siblings s g") (auto dest: state_or_unchanged_cases)
  then show ?thesis by (simp add: placement_kept_refl)
next
  case (IsLocalNode n)
  then show ?thesis using r by (simp add: placement_kept_refl)
next
  case Print
  then show ?thesis using r by (simp add: placement_kept_refl)
next
  case GetStatusOfManager
  then show ?thesis using r by (simp add: placement_kept_refl)
next
  case (SetStatusOfManager d)
  then show ?thesis using r by (simp add: placement_kept_refl)
qed

lemma run_operations_placement_kept:
  assumes h: "hooks_keep_placement k" and r: "run_operations k ops s = Some s'"
  shows "placement_kept s s'"
  using r
proof (induction ops arbitrary: s)
  case Nil
  then show ?case by (simp add: placement_kept_refl)
next
  case (Cons x xs)
  then obtain s1 where 1: "run_operation k x s = Some s1" and 2: "run_operations k xs s1 = Some s'"
    by (auto split: option.splits)
  show ?case
    using placement_kept_trans[OF run_operation_placement_kept[OF h 1] Cons.IH[OF 2]] .
qed

section \<open>How each branch places its nodes\<close>

lemma index_add_Suc: "index_add (index_add a d) 1 = index_add a (Suc d)"
proof -
  have "((a + d) mod N + 1) mod N = (a + Suc d) mod N" for N :: nat
    by (metis Suc_eq_plus1 add_Suc_right mod_add_left_eq)
  then show ?thesis unfolding index_add_def .
qed

lemma index_add_zero: "a < 2 ^ 64 \<Longrightarrow> index_add a 0 = a"
  unfolding index_add_def by (simp only: add_0_right mod_less)

lemma add_global_receiver_step:
  "grown (\<lambda>n. gid n = g \<and> vp n = suggest_rec_vp k (n_gsd u) \<and> thread n = vp_to_thread k (vp n)) u
     (add_global_receiver k mid m u g)"
  "n_gsd (add_global_receiver k mid m u g) = index_add (n_gsd u) 1"
  by (auto simp: grown_def add_global_receiver_def allocate_def update_node_def add_local_node_def
      san_add_local_node_def add_remote_node_def san_add_remote_node_def increment_n_gsd_def
      get_n_gsd_def Let_def)

lemma foldl_add_global_receiver:
  assumes n0: "n_gsd s = n0" and lt: "n0 < 2 ^ 64"
  shows "grown (\<lambda>n. lo \<le> gid n \<and> vp n = suggest_rec_vp k (index_add n0 (gid n - lo)) \<and>
                   thread n = vp_to_thread k (vp n)) s
           (foldl (add_global_receiver k mid m) s [lo..<lo + d]) \<and>
         n_gsd (foldl (add_global_receiver k mid m) s [lo..<lo + d]) = index_add n0 d"
proof (induction d)
  case 0
  have "index_add n0 0 = n0" using lt by (rule index_add_zero)
  then show ?case using n0 by (simp add: grown_refl)
next
  case (Suc d)
  let ?Q = "\<lambda>n. lo \<le> gid n \<and> vp n = suggest_rec_vp k (index_add n0 (gid n - lo)) \<and>
                   thread n = vp_to_thread k (vp n)"
  define u where "u = foldl (add_global_receiver k mid m) s [lo..<lo + d]"
  have g: "grown ?Q s u" and n: "n_gsd u = index_add n0 d"
    using Suc.IH by (simp_all add: u_def)
  have eq: "foldl (add_global_receiver k mid m) s [lo..<lo + Suc d]
      = add_global_receiver k mid m u (lo + d)"
    by (simp add: u_def)
  have "grown ?Q u (add_global_receiver k mid m u (lo + d))"
    by (rule grown_weaken[OF add_global_receiver_step(1)]) (simp add: n)
  with g have "grown ?Q s (add_global_receiver k mid m u (lo + d))" by (rule grown_trans)
  moreover have "n_gsd (add_global_receiver k mid m u (lo + d)) = index_add n0 (Suc d)"
    by (simp only: add_global_receiver_step(2) n index_add_Suc)
  ultimately show ?case unfolding eq by simp
qed

lemma grown_add_sibling_container_placed:
  assumes "0 < get_num_threads k"
  shows "grown (\<lambda>n. if thread_siblings n = []
                    then 0 \<le> thread n \<and> thread n < int (get_num_threads k) \<and>
                         vp n = thread_to_vp k (thread n)
                    else thread n = thread (prototype (get_model k 0)) \<and>
                         vp n = vp (prototype (get_model k 0))) s
     (add_sibling_container k mid m s g)"
  using assms
  by (subst add_sibling_container_eq)
     (auto simp: grown_def san_add_local_node_def new_container_fields new_replica_fields
        new_container_def)

lemma add_node_grown_receivers:
  assumes valid: "mid < get_num_node_models k" and n1: "1 \<le> n" and n63: "n < 2 ^ 63"
    and fits: "get_max_gid (local_nodes s) + 1 + nat n \<le> max_size k"
    and kr: "kernel_in_range k" and rr: "round_robin_locality k"
    and ng: "n_gsd s < 2 ^ 64"
    and gr: "potential_global_receiver (get_model k mid) \<and> 0 < get_num_rec_processes k"
  shows "\<exists>h s'. add_node k mid n s = Some (Inr h, s') \<and>
     grown (\<lambda>x. vp x = suggest_rec_vp k
                          (index_add (n_gsd s) (gid x - (get_max_gid (local_nodes s) + 1))) \<and>
                 thread x = vp_to_thread k (vp x)) s s'"
proof -
  let ?m = "get_model k mid"
  let ?lo = "get_max_gid (local_nodes s) + 1"
  let ?s1 = "s\<lparr>model_ranges := model_ranges s @ [(mid, ?lo, ?lo + nat n - 1)]\<rparr>"
  let ?Q = "\<lambda>x. vp x = suggest_rec_vp k (index_add (n_gsd s) (gid x - ?lo)) \<and>
                 thread x = vp_to_thread k (vp x)"
  from valid n1 n63 fits kr rr show ?thesis
  proof (cases rule: add_node_cases)
    case global_receiver
    have e: "n_gsd ?s1 = n_gsd s" by simp
    have "grown (\<lambda>x. ?lo \<le> gid x \<and>
                      vp x = suggest_rec_vp k (index_add (n_gsd s) (gid x - ?lo)) \<and>
                      thread x = vp_to_thread k (vp x)) ?s1
            (foldl (add_global_receiver k mid ?m) ?s1 [?lo..<?lo + nat n])"
      using foldl_add_global_receiver[OF e ng, of ?lo k mid ?m "nat n"] by (rule conjunct1)
    then have "grown ?Q ?s1 (foldl (add_global_receiver k mid ?m) ?s1 [?lo..<?lo + nat n])"
      by (rule grown_weaken) blast
    then show ?thesis
      using global_receiver(2) grown_trans[OF grown_model_ranges]
        grown_trans[OF _ grown_set_off_grid_spiking]
      by blast
  qed (use gr in simp_all)
qed

lemma add_node_grown_replicas:
  assumes valid: "mid < get_num_node_models k" and n1: "1 \<le> n" and n63: "n < 2 ^ 63"
    and fits: "get_max_gid (local_nodes s) + 1 + nat n \<le> max_size k"
    and kr: "kernel_in_range k" and rr: "round_robin_locality k"
    and ngr: "\<not> (potential_global_receiver (get_model k mid) \<and> 0 < get_num_rec_processes k)"
    and np: "\<not> has_proxies (get_model k mid)"
    and rep: "\<not> one_node_per_process (get_model k mid)"
  shows "\<exists>h s'. add_node k mid n s = Some (Inr h, s') \<and>
     grown (\<lambda>x. if thread_siblings x = []
                 then 0 \<le> thread x \<and> thread x < int (get_num_threads k) \<and>
                      vp x = thread_to_vp k (thread x)
                 else thread x = thread (prototype (get_model k 0)) \<and>
                      vp x = vp (prototype (get_model k 0))) s s'"
proof -
  let ?m = "get_model k mid"
  let ?lo = "get_max_gid (local_nodes s) + 1"
  let ?s1 = "s\<lparr>model_ranges := model_ranges s @ [(mid, ?lo, ?lo + nat n - 1)]\<rparr>"
  have T: "0 < get_num_threads k" using kr by (simp add: kernel_in_range_def)
  from valid n1 n63 fits kr rr show ?thesis
  proof (cases rule: add_node_cases)
    case replicated
    have "grown (\<lambda>x. if thread_siblings x = []
                 then 0 \<le> thread x \<and> thread x < int (get_num_threads k) \<and>
                      vp x = thread_to_vp k (thread x)
                 else thread x = thread (prototype (get_model k 0)) \<and>
                      vp x = vp (prototype (get_model k 0))) ?s1
            (foldl (add_sibling_container k mid ?m) ?s1 [?lo..<?lo + nat n])"
      by (intro grown_foldl grown_add_sibling_container_placed[OF T])
    then show ?thesis
      using replicated(4) grown_trans[OF grown_model_ranges]
        grown_trans[OF _ grown_set_off_grid_spiking]
      by blast
  qed (use ngr np rep in simp_all)
qed

lemma add_node_grown_single:
  assumes valid: "mid < get_num_node_models k" and n1: "1 \<le> n" and n63: "n < 2 ^ 63"
    and fits: "get_max_gid (local_nodes s) + 1 + nat n \<le> max_size k"
    and kr: "kernel_in_range k" and rr: "round_robin_locality k"
    and ngr: "\<not> (potential_global_receiver (get_model k mid) \<and> 0 < get_num_rec_processes k)"
    and np: "\<not> has_proxies (get_model k mid)"
    and one: "one_node_per_process (get_model k mid)"
  shows "\<exists>h s'. add_node k mid n s = Some (Inr h, s') \<and>
     grown (\<lambda>x. thread x = 0 \<and> vp x = thread_to_vp k 0) s s'"
proof -
  let ?m = "get_model k mid"
  let ?lo = "get_max_gid (local_nodes s) + 1"
  let ?s1 = "s\<lparr>model_ranges := model_ranges s @ [(mid, ?lo, ?lo + nat n - 1)]\<rparr>"
  from valid n1 n63 fits kr rr show ?thesis
  proof (cases rule: add_node_cases)
    case single
    have "grown (\<lambda>x. thread x = 0 \<and> vp x = thread_to_vp k 0) ?s1
            (foldl (add_single_node k mid ?m) ?s1 [?lo..<?lo + nat n])"
      by (intro grown_foldl grown_weaken[OF grown_add_single_node]) simp
    then show ?thesis
      using single(4) grown_trans[OF grown_model_ranges]
        grown_trans[OF _ grown_set_off_grid_spiking]
      by blast
  qed (use ngr np one in simp_all)
qed

section \<open>Placement of the nodes of a call, and its persistence\<close>

lemma example_device_replica:
  "add_node (example_kernel 0 1 2) 2 1 NodeManager
     = Some (Inr (GIDCollectionPrimitive 1 1 2), example_device)"
  "next_addr NodeManager = 0" "next_addr example_device = 3"
  "gid (pool example_device 1) = 1"
  "thread (pool example_device 1) = 0"
  "vp (pool example_device 1) = 0"
  "thread_siblings (pool example_device 1) = []"
  "thread_siblings (pool example_device 2) = []"
  by (simp_all add: example_device_def eval_defs upt_conv_Cons)

lemma example_neurons_state:
  "add_node (example_kernel 0 1 2) 1 3 NodeManager
     = Some (Inr (GIDCollectionPrimitive 1 3 1), example_neurons)"
  "next_addr example_neurons = 3"
  "gid (pool example_neurons 0) = 1"
  "gid (pool example_neurons 1) = 2"
  "gid (pool example_neurons 2) = 3"
  by (simp_all add: example_neurons_def eval_defs)

lemma example_single_state:
  "next_addr example_single = 1"
  by (simp_all add: example_single_def eval_defs)

lemma example_recording_kernel_simps:
  "get_num_node_models example_recording_kernel = 4"
  "get_model example_recording_kernel i = (example_model i)\<lparr>potential_global_receiver := (i = 3)\<rparr>"
  "get_num_threads example_recording_kernel = 1"
  "get_rank example_recording_kernel = 1"
  "get_num_sim_processes example_recording_kernel = 1"
  "get_num_rec_processes example_recording_kernel = 1"
  "suggest_vp example_recording_kernel g = 0"
  "suggest_rec_vp example_recording_kernel g = 1"
  "vp_to_thread example_recording_kernel v = 0"
  "is_local_vp example_recording_kernel v \<longleftrightarrow> v = 1"
  "max_size example_recording_kernel = 1000"
  by (simp_all add: example_recording_kernel_def example_kernel_def)

lemma example_receivers_state:
  "next_addr example_receivers = 2"
  "gid (pool example_receivers 0) = 1"
  "gid (pool example_receivers 1) = 2"
  by (simp_all add: example_receivers_def add_node_def example_recording_kernel_simps
      NodeManager_def example_model_def index_add_def index_sub_def index_of_long_def
      get_max_gid_def Let_def set_off_grid_spiking_def state_after_def add_global_receiver_def
      allocate_def update_node_def add_local_node_def san_add_local_node_def blank_node_def
      get_n_gsd_def increment_n_gsd_def upt_conv_Cons)

lemmas run_defs =
  example_lifecycle_def example_neurons_def view_defs eval_defs prepare_defs
  upt_conv_Cons replicate_two post_run_cleanup_def finalize_nodes_def visit_all_threads_def
  visit_thread_local_def reset_nodes_state_def reinit_nodes_def reset_entry_def reset_node_def
  restore_nodes.simps set_status_def set_status_single_node_def set_status_siblings.simps
  get_status_def init_state_node_def initialize_def check_wfr_use_def default_thread_def
  get_node_def get_thread_siblings_def state_or_unchanged_def registered_def example_run_def

lemma example_run_state:
  "run_operations (example_kernel 0 1 2) example_lifecycle example_neurons = Some example_run"
  "registered example_run 0" "registered example_run 1" "registered example_run 2"
  "next_addr example_run = 8"
  by (simp_all add: run_defs)


lemma example_recording_kernel_assumptions:
  "kernel_in_range example_recording_kernel" "round_robin_locality example_recording_kernel"
  by (simp_all add: kernel_in_range_def round_robin_locality_def example_recording_kernel_simps)

text \<open>
  Claim C3 fails for the branches of \<^verbatim>\<open>add_node\<close> other than the one for models with
  proxies. A single process with two threads creates one replicated device, with GID 1.
  The topology suggests virtual process 1, on thread 1, for GID 1; the replica for
  thread 0 that the call creates at address 1 has this GID and is owned by thread 0 and
  virtual process 0, the virtual process of its thread.
\<close>

theorem replica_not_placed_by_gid:
  "add_node (example_kernel 0 1 2) 2 1 NodeManager
     = Some (Inr (GIDCollectionPrimitive 1 1 2), example_device) \<and>
   next_addr NodeManager \<le> 1 \<and> 1 < next_addr example_device \<and>
   thread_siblings (pool example_device 0) = [1, 2] \<and>
   gid (pool example_device 1) = 1 \<and>
   suggest_vp (example_kernel 0 1 2) 1 = 1 \<and>
   vp_to_thread (example_kernel 0 1 2) 1 = 1 \<and>
   thread (pool example_device 1) = 0 \<and>
   vp (pool example_device 1) = 0 \<and>
   \<not> placed (example_kernel 0 1 2) (pool example_device 1)"
  by (simp add: example_device_replica example_device_container placed_def example_kernel_simps
      del: One_nat_def)

text \<open>
  Claim C3, amended. A call of \<^verbatim>\<open>add_node\<close> that passes its checks places every node it
  creates as its branch prescribes: a node of a model with proxies is owned by the
  virtual process that the topology suggests for its GID and by the thread of that
  virtual process; a global receiver by the recording virtual process suggested for its
  number among the global receivers, and the thread of that; a replica of a replicated
  model by a thread of the process and the virtual process of that thread, its container
  being left as the prototype of the container model; a node with one instance per
  process by thread 0 and its virtual process. No run of operations of the manager that
  returns changes the GID, the thread or the virtual process of a node of the registry,
  so that a node with proxies stays where the topology has placed it. The operations are
  all the member functions of the manager; \<^verbatim>\<open>finalize\<close> destructs the nodes and takes them
  out of the registry. The kernel is taken within the ranges of its C types, with the
  locality that \<^verbatim>\<open>next_local_gid_\<close> relies on, and the methods of the node classes do not
  touch GID, thread and virtual process, whose setters are private to the manager.
\<close>

theorem add_node_placement:
  "(mid < get_num_node_models k \<and> 1 \<le> n \<and> n < 2 ^ 63 \<and>
    get_max_gid (local_nodes s) + 1 + nat n \<le> max_size k \<and>
    kernel_in_range k \<and> round_robin_locality k \<and> n_gsd s < 2 ^ 64 \<longrightarrow>
      (\<exists>h s1. add_node k mid n s = Some (Inr h, s1) \<and>
         (\<forall>a. next_addr s \<le> a \<and> a < next_addr s1 \<longrightarrow>
            branch_placement k (get_model k mid) (n_gsd s) (get_max_gid (local_nodes s) + 1)
              (pool s1 a)) \<and>
         (\<forall>ops s2 a.
            hooks_keep_placement k \<and> run_operations k ops s1 = Some s2 \<and>
            has_proxies (get_model k mid) \<and>
            \<not> (potential_global_receiver (get_model k mid) \<and> 0 < get_num_rec_processes k) \<and>
            next_addr s \<le> a \<and> a < next_addr s1 \<and> registered s2 a \<longrightarrow>
            placed k (pool s2 a)))) \<and>
   (\<forall>ops s2 a.
      hooks_keep_placement k \<and> run_operations k ops s = Some s2 \<and>
      a < next_addr s \<and> registered s2 a \<longrightarrow>
      gid (pool s2 a) = gid (pool s a) \<and> thread (pool s2 a) = thread (pool s a) \<and>
      vp (pool s2 a) = vp (pool s a))"
proof (intro conjI impI allI)
  assume a: "mid < get_num_node_models k \<and> 1 \<le> n \<and> n < 2 ^ 63 \<and>
    get_max_gid (local_nodes s) + 1 + nat n \<le> max_size k \<and>
    kernel_in_range k \<and> round_robin_locality k \<and> n_gsd s < 2 ^ 64"
  then have valid: "mid < get_num_node_models k" and n1: "1 \<le> n" and n63: "n < 2 ^ 63"
    and fits: "get_max_gid (local_nodes s) + 1 + nat n \<le> max_size k"
    and kr: "kernel_in_range k" and rr: "round_robin_locality k" and ng: "n_gsd s < 2 ^ 64"
    by simp_all
  let ?m = "get_model k mid"
  let ?B = "branch_placement k ?m (n_gsd s) (get_max_gid (local_nodes s) + 1)"
  have w: "\<exists>h s1. add_node k mid n s = Some (Inr h, s1) \<and> grown ?B s s1"
    if "\<exists>h s1. add_node k mid n s = Some (Inr h, s1) \<and> grown Q s s1" "\<And>x. Q x \<Longrightarrow> ?B x" for Q
    using that grown_weaken[of Q s _ ?B] by blast
  have "\<exists>h s1. add_node k mid n s = Some (Inr h, s1) \<and> grown ?B s s1"
  proof (cases "potential_global_receiver ?m \<and> 0 < get_num_rec_processes k")
    case True
    show ?thesis
      by (rule w[OF add_node_grown_receivers[OF valid n1 n63 fits kr rr ng True]])
         (use True in \<open>auto simp: branch_placement_def\<close>)
  next
    case ngr: False
    show ?thesis
    proof (cases "has_proxies ?m")
      case True
      show ?thesis
        by (rule w[OF add_node_grown_placed[OF valid n1 n63 fits kr rr ngr True]])
           (use ngr True in \<open>auto simp: branch_placement_def\<close>)
    next
      case np: False
      show ?thesis
      proof (cases "one_node_per_process ?m")
        case True
        show ?thesis
          by (rule w[OF add_node_grown_single[OF valid n1 n63 fits kr rr ngr np True]])
             (use ngr np True in \<open>auto simp: branch_placement_def\<close>)
      next
        case False
        show ?thesis
          by (rule w[OF add_node_grown_replicas[OF valid n1 n63 fits kr rr ngr np False]])
             (use ngr np False in \<open>auto simp: branch_placement_def\<close>)
      qed
    qed
  qed
  then obtain h s1 where run: "add_node k mid n s = Some (Inr h, s1)" and g: "grown ?B s s1"
    by blast
  have new: "?B (pool s1 a)" if "next_addr s \<le> a \<and> a < next_addr s1" for a
    using g that by (simp add: grown_def)
  have later: "placed k (pool s2 a)"
    if r: "hooks_keep_placement k \<and> run_operations k ops s1 = Some s2 \<and>
            has_proxies ?m \<and>
            \<not> (potential_global_receiver ?m \<and> 0 < get_num_rec_processes k) \<and>
            next_addr s \<le> a \<and> a < next_addr s1 \<and> registered s2 a" for ops s2 a
  proof -
    have "placement_kept s1 s2"
      using r run_operations_placement_kept[of k ops s1 s2] by simp
    then have "gid (pool s2 a) = gid (pool s1 a) \<and> thread (pool s2 a) = thread (pool s1 a) \<and>
        vp (pool s2 a) = vp (pool s1 a)"
      using r by (simp add: placement_kept_def)
    moreover have "placed k (pool s1 a)"
      using new[of a] r by (auto simp: branch_placement_def)
    ultimately show ?thesis by (simp add: placed_def)
  qed
  show "\<exists>h s1. add_node k mid n s = Some (Inr h, s1) \<and>
         (\<forall>a. next_addr s \<le> a \<and> a < next_addr s1 \<longrightarrow> ?B (pool s1 a)) \<and>
         (\<forall>ops s2 a.
            hooks_keep_placement k \<and> run_operations k ops s1 = Some s2 \<and>
            has_proxies ?m \<and>
            \<not> (potential_global_receiver ?m \<and> 0 < get_num_rec_processes k) \<and>
            next_addr s \<le> a \<and> a < next_addr s1 \<and> registered s2 a \<longrightarrow>
            placed k (pool s2 a))"
    using run new later by blast
next
  fix ops s2 a
  assume r: "hooks_keep_placement k \<and> run_operations k ops s = Some s2 \<and>
      a < next_addr s \<and> registered s2 a"
  then have "placement_kept s s2"
    using run_operations_placement_kept[of k ops s s2] by simp
  then have f: "gid (pool s2 a) = gid (pool s a) \<and> thread (pool s2 a) = thread (pool s a) \<and>
      vp (pool s2 a) = vp (pool s a)"
    using r by (simp add: placement_kept_def)
  from f show "gid (pool s2 a) = gid (pool s a)" by simp
  from f show "thread (pool s2 a) = thread (pool s a)" by simp
  from f show "vp (pool s2 a) = vp (pool s a)" by simp
qed


text \<open>
  A single process with two threads. Three neurons with the GIDs 1, 2 and 3 are placed on
  the virtual processes 1, 0 and 1, and are there after a run of operations that creates
  a device and restores a neuron, sets and reads the status, resets, prepares, cleans up
  and finalises the nodes. A replicated device has its container left with the virtual
  process -1 of the prototype and a replica on each thread; a device with one instance
  per process is on thread 0. On a recording process two global receivers are on its
  virtual process 1.
\<close>

theorem add_node_placement_witness:
  "add_node (example_kernel 0 1 2) 1 3 NodeManager
     = Some (Inr (GIDCollectionPrimitive 1 3 1), example_neurons) \<and>
   placed (example_kernel 0 1 2) (pool example_neurons 0) \<and>
   placed (example_kernel 0 1 2) (pool example_neurons 1) \<and>
   placed (example_kernel 0 1 2) (pool example_neurons 2) \<and>
   run_operations (example_kernel 0 1 2) example_lifecycle example_neurons = Some example_run \<and>
   registered example_run 0 \<and> registered example_run 1 \<and> registered example_run 2 \<and>
   placed (example_kernel 0 1 2) (pool example_run 0) \<and>
   placed (example_kernel 0 1 2) (pool example_run 1) \<and>
   placed (example_kernel 0 1 2) (pool example_run 2) \<and>
   vp (pool example_run 0) = 1 \<and> vp (pool example_run 1) = 0 \<and> vp (pool example_run 2) = 1 \<and>
   thread (pool example_run 0) = thread (pool example_neurons 0) \<and>
   thread (pool example_device 0) = 0 \<and> vp (pool example_device 0) = - 1 \<and>
   vp (pool example_device 1) = thread_to_vp (example_kernel 0 1 2) (thread (pool example_device 1)) \<and>
   vp (pool example_device 2) = thread_to_vp (example_kernel 0 1 2) (thread (pool example_device 2)) \<and>
   thread (pool example_single 0) = 0 \<and> vp (pool example_single 0) = 0 \<and>
   vp (pool example_receivers 0) = 1 \<and> thread (pool example_receivers 0) = 0 \<and>
   vp (pool example_receivers 1) = 1 \<and> thread (pool example_receivers 1) = 0"
proof -
  let ?k = "example_kernel 0 1 2"
  let ?r = "example_recording_kernel"
  have kr: "kernel_in_range ?k" by (rule example_in_range) simp_all
  have rr: "round_robin_locality ?k" by (rule example_round_robin) simp_all
  have hk: "hooks_keep_placement ?k"
    by (simp add: hooks_keep_placement_def keeps_placement_def example_kernel_def)
  have n0: "next_addr NodeManager = 0" "n_gsd NodeManager < 2 ^ 64"
    "get_max_gid (local_nodes NodeManager) = 0"
    by (simp_all add: NodeManager_def get_max_gid_def)
  have hyp: "i < get_num_node_models ?k \<and> 1 \<le> j \<and> j < 2 ^ 63 \<and>
      get_max_gid (local_nodes NodeManager) + 1 + nat j \<le> max_size ?k \<and>
      kernel_in_range ?k \<and> round_robin_locality ?k \<and> n_gsd NodeManager < 2 ^ 64"
    if "i < 4" "1 \<le> j" "j \<le> 3" for i j
    using that kr rr n0(2) by (simp add: example_kernel_simps n0(3))
  have hypr: "3 < get_num_node_models ?r \<and> (1::int) \<le> 2 \<and> (2::int) < 2 ^ 63 \<and>
      get_max_gid (local_nodes NodeManager) + 1 + nat 2 \<le> max_size ?r \<and>
      kernel_in_range ?r \<and> round_robin_locality ?r \<and> n_gsd NodeManager < 2 ^ 64"
    using example_recording_kernel_assumptions n0(2)
    by (simp add: example_recording_kernel_simps n0(3))

  note th1 = add_node_placement[of 1 ?k 3 NodeManager]
  from th1 hyp[of 1 3] obtain h1 s1 where
    a1: "add_node ?k 1 3 NodeManager = Some (Inr h1, s1)"
    and b1: "\<forall>a. next_addr NodeManager \<le> a \<and> a < next_addr s1 \<longrightarrow>
        branch_placement ?k (get_model ?k 1) (n_gsd NodeManager)
          (get_max_gid (local_nodes NodeManager) + 1) (pool s1 a)"
    and c1: "\<forall>ops s2 a.
        hooks_keep_placement ?k \<and> run_operations ?k ops s1 = Some s2 \<and>
        has_proxies (get_model ?k 1) \<and>
        \<not> (potential_global_receiver (get_model ?k 1) \<and> 0 < get_num_rec_processes ?k) \<and>
        next_addr NodeManager \<le> a \<and> a < next_addr s1 \<and> registered s2 a \<longrightarrow>
        placed ?k (pool s2 a)"
    by (simp del: One_nat_def) blast
  have s1: "s1 = example_neurons" unfolding example_neurons_def state_after_def a1 by simp
  have m1: "has_proxies (get_model ?k 1)"
    "\<not> (potential_global_receiver (get_model ?k 1) \<and> 0 < get_num_rec_processes ?k)"
    by (simp_all add: example_kernel_simps example_model_def)
  have p1: "placed ?k (pool example_neurons a)" if "a < 3" for a
    using b1 that m1 by (simp add: s1 n0 example_neurons_state(2) branch_placement_def)
  have p2: "placed ?k (pool example_run a)" if "a < 3" "registered example_run a" for a
    using c1 hk example_run_state(1) m1 that unfolding s1
    by (simp add: n0 example_neurons_state(2))
  have v: "vp (pool example_run 0) = 1" "vp (pool example_run 1) = 0" "vp (pool example_run 2) = 1"
  proof -
    note th5 = add_node_placement[of 1 ?k 3 example_neurons]
    have k5: "gid (pool example_run a) = gid (pool example_neurons a) \<and>
        thread (pool example_run a) = thread (pool example_neurons a) \<and>
        vp (pool example_run a) = vp (pool example_neurons a)"
      if "a < 3" "registered example_run a" for a
      using th5 hk example_run_state(1) that by (simp add: example_neurons_state(2))
    have g: "gid (pool example_run 0) = 1" "gid (pool example_run 1) = 2" "gid (pool example_run 2) = 3"
      using k5[of 0] k5[of 1] k5[of 2] example_run_state(2,3,4)
      by (simp_all add: example_neurons_state del: One_nat_def)
    show "vp (pool example_run 0) = 1" "vp (pool example_run 1) = 0" "vp (pool example_run 2) = 1"
      using p2[of 0] p2[of 1] p2[of 2] example_run_state(2,3,4)
      by (simp_all add: placed_def g example_kernel_simps del: One_nat_def)
  qed
  have t0: "thread (pool example_run 0) = thread (pool example_neurons 0)"
    using add_node_placement[of 1 ?k 3 example_neurons] hk example_run_state(1,2)
    by (simp add: example_neurons_state(2))

  note th2 = add_node_placement[of 2 ?k 1 NodeManager]
  from th2 hyp[of 2 1] obtain h2 s2 where
    a2: "add_node ?k 2 1 NodeManager = Some (Inr h2, s2)"
    and b2: "\<forall>a. next_addr NodeManager \<le> a \<and> a < next_addr s2 \<longrightarrow>
        branch_placement ?k (get_model ?k 2) (n_gsd NodeManager)
          (get_max_gid (local_nodes NodeManager) + 1) (pool s2 a)"
    by (simp del: One_nat_def) blast
  have s2: "s2 = example_device" unfolding example_device_def state_after_def a2 by simp
  have d: "branch_placement ?k (get_model ?k 2) (n_gsd NodeManager)
          (get_max_gid (local_nodes NodeManager) + 1) (pool example_device a)" if "a < 3" for a
    using b2 that by (simp add: s2 n0(1) example_device_replica(3))
  have dev: "thread (pool example_device 0) = 0" "vp (pool example_device 0) = - 1"
    "vp (pool example_device 1) = thread_to_vp ?k (thread (pool example_device 1))"
    "vp (pool example_device 2) = thread_to_vp ?k (thread (pool example_device 2))"
    using d[of 0] d[of 1] d[of 2]
    by (simp_all add: branch_placement_def example_kernel_simps(1-6) example_model_def
        example_device_replica(7,8) example_device_container blank_node_def del: One_nat_def)

  note th3 = add_node_placement[of 3 ?k 1 NodeManager]
  from th3 hyp[of 3 1] obtain h3 s3 where
    a3: "add_node ?k 3 1 NodeManager = Some (Inr h3, s3)"
    and b3: "\<forall>a. next_addr NodeManager \<le> a \<and> a < next_addr s3 \<longrightarrow>
        branch_placement ?k (get_model ?k 3) (n_gsd NodeManager)
          (get_max_gid (local_nodes NodeManager) + 1) (pool s3 a)"
    by (simp del: One_nat_def) blast
  have s3: "s3 = example_single" unfolding example_single_def state_after_def a3 by simp
  have "branch_placement ?k (get_model ?k 3) (n_gsd NodeManager)
          (get_max_gid (local_nodes NodeManager) + 1) (pool example_single 0)"
    using b3 by (simp add: s3 n0(1) example_single_state)
  then have sg: "thread (pool example_single 0) = 0" "vp (pool example_single 0) = 0"
    by (simp_all add: branch_placement_def example_kernel_simps example_model_def)

  note th4 = add_node_placement[of 3 ?r 2 NodeManager]
  from th4 hypr obtain h4 s4 where
    a4: "add_node ?r 3 2 NodeManager = Some (Inr h4, s4)"
    and b4: "\<forall>a. next_addr NodeManager \<le> a \<and> a < next_addr s4 \<longrightarrow>
        branch_placement ?r (get_model ?r 3) (n_gsd NodeManager)
          (get_max_gid (local_nodes NodeManager) + 1) (pool s4 a)"
    by (simp del: One_nat_def) blast
  have s4: "s4 = example_receivers" unfolding example_receivers_def state_after_def a4 by simp
  have r: "branch_placement ?r (get_model ?r 3) (n_gsd NodeManager)
          (get_max_gid (local_nodes NodeManager) + 1) (pool example_receivers a)" if "a < 2" for a
    using b4 that by (simp add: s4 n0(1) example_receivers_state(1))
  have rc: "vp (pool example_receivers 0) = 1" "thread (pool example_receivers 0) = 0"
    "vp (pool example_receivers 1) = 1" "thread (pool example_receivers 1) = 0"
    using r[of 0] r[of 1]
    by (simp_all add: branch_placement_def example_recording_kernel_simps example_model_def
        del: One_nat_def)

  show ?thesis
    using p1[of 0] p1[of 1] p1[of 2] p2[of 0] p2[of 1] p2[of 2] example_run_state v t0 dev sg rc
    by (simp add: example_neurons_state(1) del: One_nat_def)
qed

end
